theory Spec2Isabelle
  imports Main "HOL-Library.Monad_Syntax"
begin

section \<open>The pull protocol\<close>

text \<open>
  Every iterator of \<^verbatim>\<open>rusty-iter.hpp\<close> is a C++ object with one primitive,
  \<^verbatim>\<open>next()\<close>, which forwards to the \<^verbatim>\<open>next_internal()\<close> of the concrete
  iterator, mutates it, and returns a pointer to the next value or a null pointer.

  The embedding passes the state explicitly. An advancement function takes the state of an
  iterator and gives the pointee of the returned pointer (\<open>None\<close> for the null pointer)
  together with the state after the call. The pointee is read at the time of the return, so
  the slots that only back the returned pointer (\<^verbatim>\<open>_tmpResult\<close>, \<^verbatim>\<open>_tmpSeparator\<close>)
  are not part of the modelled state. A call that does not return at all (a loop over an
  infinite upstream) is the outer \<open>None\<close>.

  Adaptors are templates over the type of their upstream; here they are parameterised by the
  advancement function of the upstream, and hold the upstream's state by value, as the C++
  adaptors hold a copy of the upstream iterator. Functors held by value (generators,
  predicates with a counter) are pure state transformers: copying an iterator copies all of
  its state.
\<close>

type_synonym ('s, 'a) advance = "'s \<Rightarrow> ('a option \<times> 's) option"

subsection \<open>Leaf producers\<close>

text \<open>
  \<^verbatim>\<open>CppIteratorWrapper\<close>: a pair of C++ iterators \<^verbatim>\<open>_begin\<close>, \<^verbatim>\<open>_end\<close> over a
  collection. The pair is modelled by the elements between the two positions:
  \<^verbatim>\<open>_begin == _end\<close> is the empty list, \<^verbatim>\<open>*_begin\<close> its head and \<^verbatim>\<open>++_begin\<close>
  its tail.
\<close>

definition CppIteratorWrapper_next :: "('a list, 'a) advance" where
  "CppIteratorWrapper_next r =
     (case r of
        [] \<Rightarrow> Some (None, [])
      | current # rest \<Rightarrow> Some (Some current, rest))"

text \<open>\<^verbatim>\<open>rusty::iter(collection)\<close>\<close>

definition iter :: "'a list \<Rightarrow> 'a list" where
  "iter collection = collection"

text \<open>\<^verbatim>\<open>GeneratorIter\<close>: calls the generator function on every advancement, never finishes.\<close>

definition GeneratorIter_next :: "('g \<Rightarrow> 'a \<times> 'g) \<Rightarrow> ('g, 'a) advance" where
  "GeneratorIter_next generatorFunction g =
     (let (v, g') = generatorFunction g in Some (Some v, g'))"

text \<open>\<^verbatim>\<open>FiniteGeneratorIter\<close>: runs until the generator returns an empty optional.\<close>

record 'g FiniteGeneratorIter =
  fg_generatorFunction :: 'g
  fg_done :: bool

definition FiniteGeneratorIter_new :: "'g \<Rightarrow> 'g FiniteGeneratorIter" where
  "FiniteGeneratorIter_new g = \<lparr>fg_generatorFunction = g, fg_done = False\<rparr>"

definition FiniteGeneratorIter_next ::
  "('g \<Rightarrow> 'a option \<times> 'g) \<Rightarrow> ('g FiniteGeneratorIter, 'a) advance" where
  "FiniteGeneratorIter_next generatorFunction it =
     (if fg_done it then Some (None, it)
      else
        (let (v, g') = generatorFunction (fg_generatorFunction it) in
         case v of
           Some x \<Rightarrow> Some (Some x, it\<lparr>fg_generatorFunction := g'\<rparr>)
         | None \<Rightarrow> Some (None, it\<lparr>fg_generatorFunction := g', fg_done := True\<rparr>)))"

text \<open>\<^verbatim>\<open>EmptyIter\<close>\<close>

definition EmptyIter_next :: "(unit, 'a) advance" where
  "EmptyIter_next u = Some (None, u)"

subsection \<open>Helper functors\<close>

text \<open>
  The integer template parameter \<^verbatim>\<open>T\<close> is modelled by \<open>int\<close>; the claims below
  concern counts and ranges far from the limits of a machine integer.
\<close>

text \<open>\<^verbatim>\<open>Counter\<close>: \<^verbatim>\<open>return _currentCount++ < _maxCount;\<close>\<close>

record Counter =
  currentCount :: int
  maxCount :: int

definition Counter_new :: "int \<Rightarrow> Counter" where
  "Counter_new count = \<lparr>currentCount = 0, maxCount = count\<rparr>"

definition Counter_call :: "Counter \<Rightarrow> bool \<times> Counter" where
  "Counter_call c = (currentCount c < maxCount c, c\<lparr>currentCount := currentCount c + 1\<rparr>)"

text \<open>\<^verbatim>\<open>InfiniteRangeGenerator\<close>\<close>

record InfiniteRangeGenerator =
  irg_value :: int
  irg_step :: int

definition InfiniteRangeGenerator_call :: "InfiniteRangeGenerator \<Rightarrow> int \<times> InfiniteRangeGenerator" where
  "InfiniteRangeGenerator_call g = (irg_value g, g\<lparr>irg_value := irg_value g + irg_step g\<rparr>)"

text \<open>\<^verbatim>\<open>FiniteRangeGenerator<T, Inclusive>\<close>\<close>

record FiniteRangeGenerator =
  frg_value :: int
  frg_end :: int
  frg_step :: int

definition FiniteRangeGenerator_call ::
  "bool \<Rightarrow> FiniteRangeGenerator \<Rightarrow> int option \<times> FiniteRangeGenerator" where
  "FiniteRangeGenerator_call inclusive g =
     (let hasValue = (if inclusive then frg_value g \<le> frg_end g else frg_value g < frg_end g) in
      if hasValue then (Some (frg_value g), g\<lparr>frg_value := frg_value g + frg_step g\<rparr>)
      else (None, g))"

text \<open>\<^verbatim>\<open>rusty::infinite_range(min)\<close> and its advancement function\<close>

definition infinite_range :: "int \<Rightarrow> InfiniteRangeGenerator" where
  "infinite_range min' = \<lparr>irg_value = min', irg_step = 1\<rparr>"

definition infinite_range_next :: "(InfiniteRangeGenerator, int) advance" where
  "infinite_range_next = GeneratorIter_next InfiniteRangeGenerator_call"

text \<open>\<^verbatim>\<open>rusty::range(min, max)\<close> and its advancement function\<close>

definition rusty_range :: "int \<Rightarrow> int \<Rightarrow> FiniteRangeGenerator FiniteGeneratorIter" where
  "rusty_range min' max' = FiniteGeneratorIter_new \<lparr>frg_value = min', frg_end = max', frg_step = 1\<rparr>"

definition range_next :: "(FiniteRangeGenerator FiniteGeneratorIter, int) advance" where
  "range_next = FiniteGeneratorIter_next (FiniteRangeGenerator_call False)"

subsection \<open>Observing a sequence\<close>

text \<open>
  \<^verbatim>\<open>IterBase::collect\<close>: \<^verbatim>\<open>while (const OutType* value = next()) add_to_collection(coll, *value);\<close>
  The loop does not return on an infinite sequence.
\<close>

partial_function (option) collect_loop ::
  "('s, 'a) advance \<Rightarrow> 's \<Rightarrow> 'a list \<Rightarrow> ('a list \<times> 's) option" where
  "collect_loop nxt s coll =
     (case nxt s of
        None \<Rightarrow> None
      | Some (None, s') \<Rightarrow> Some (coll, s')
      | Some (Some v, s') \<Rightarrow> collect_loop nxt s' (coll @ [v]))"

definition collect :: "('s, 'a) advance \<Rightarrow> 's \<Rightarrow> ('a list \<times> 's) option" where
  "collect nxt s = collect_loop nxt s []"

text \<open>
  \<open>yields nxt s xs t\<close>: advancing from state \<open>s\<close> returns the items \<open>xs\<close> one by one, and
  the call after the last item signals exhaustion and leaves the state \<open>t\<close>.
\<close>

fun yields :: "('s, 'a) advance \<Rightarrow> 's \<Rightarrow> 'a list \<Rightarrow> 's \<Rightarrow> bool" where
  "yields nxt s [] t = (nxt s = Some (None, t))"
| "yields nxt s (x # xs) t =
     (case nxt s of
        Some (Some y, s') \<Rightarrow> y = x \<and> yields nxt s' xs t
      | _ \<Rightarrow> False)"

text \<open>
  An upstream with a call counter: the state is paired with the number of advancement calls
  made on it so far.
\<close>

definition counted :: "('s, 'a) advance \<Rightarrow> ('s \<times> nat, 'a) advance" where
  "counted nxt = (\<lambda>(s, calls).
     case nxt s of None \<Rightarrow> None | Some (r, s') \<Rightarrow> Some (r, (s', calls + 1)))"



text \<open>
  Sticky exhaustion of an iterator type: a call that follows a call that signalled
  exhaustion returns, and signals exhaustion again.
\<close>

definition sticky :: "('s, 'a) advance \<Rightarrow> bool" where
  "sticky nxt = (\<forall>s s'. nxt s = Some (None, s') \<longrightarrow> (\<exists>s''. nxt s' = Some (None, s'')))"

text \<open>
  The same relative to an invariant \<open>I\<close> of the iterator's states, for an iterator whose
  state type has values that no run reaches: \<open>I\<close> is kept by every call, and from a state
  in \<open>I\<close> a call that follows a call that signalled exhaustion returns, and signals
  exhaustion again.
\<close>

definition sticky_on :: "('s \<Rightarrow> bool) \<Rightarrow> ('s, 'a) advance \<Rightarrow> bool" where
  "sticky_on I nxt =
     (\<forall>s r s'. I s \<and> nxt s = Some (r, s') \<longrightarrow>
        I s' \<and> (r = None \<longrightarrow> (\<exists>s''. nxt s' = Some (None, s''))))"

text \<open>The state after \<open>k\<close> further advancement calls (if they all return).\<close>

fun advance_n :: "('s, 'a) advance \<Rightarrow> nat \<Rightarrow> 's \<Rightarrow> 's option" where
  "advance_n nxt 0 s = Some s"
| "advance_n nxt (Suc k) s = (case nxt s of None \<Rightarrow> None | Some (r, s') \<Rightarrow> advance_n nxt k s')"

text \<open>From state \<open>s\<close> on, every advancement call returns and signals exhaustion.\<close>

definition stays_exhausted :: "('s, 'a) advance \<Rightarrow> 's \<Rightarrow> bool" where
  "stays_exhausted nxt s = (\<forall>k. \<exists>t t'. advance_n nxt k s = Some t \<and> nxt t = Some (None, t'))"

subsection \<open>step\_by\<close>

record 's StepByIter =
  sb_iter :: 's
  sb_stepSize :: int
  sb_first :: bool
  sb_invalid :: bool

definition StepByIter_new :: "'s \<Rightarrow> int \<Rightarrow> 's StepByIter" where
  "StepByIter_new it stepSize =
     \<lparr>sb_iter = it, sb_stepSize = stepSize, sb_first = True, sb_invalid = (stepSize \<le> 0)\<rparr>"

text \<open>\<^verbatim>\<open>for (T i = 0; i < _stepSize; ++i) { last = _iter.next(); }\<close>\<close>

function StepByIter_loop ::
  "('s, 'a) advance \<Rightarrow> int \<Rightarrow> int \<Rightarrow> 'a option \<Rightarrow> 's \<Rightarrow> ('a option \<times> 's) option" where
  "StepByIter_loop nxt i stepSize last' s =
     (if i < stepSize then
        (case nxt s of
           None \<Rightarrow> None
         | Some (r, s') \<Rightarrow> StepByIter_loop nxt (i + 1) stepSize r s')
      else Some (last', s))"
  by pat_completeness auto
termination
  by (relation "measure (\<lambda>(nxt, i, stepSize, last', s). nat (stepSize - i))") auto

declare StepByIter_loop.simps [simp del]

definition StepByIter_next :: "('s, 'a) advance \<Rightarrow> ('s StepByIter, 'a) advance" where
  "StepByIter_next nxt it =
     (if sb_invalid it then Some (None, it)
      else if sb_first it then
        (case nxt (sb_iter it) of
           None \<Rightarrow> None
         | Some (r, s') \<Rightarrow> Some (r, it\<lparr>sb_first := False, sb_iter := s'\<rparr>))
      else
        (case StepByIter_loop nxt 0 (sb_stepSize it) None (sb_iter it) of
           None \<Rightarrow> None
         | Some (last', s') \<Rightarrow> Some (last', it\<lparr>sb_iter := s'\<rparr>)))"

subsection \<open>chain\<close>

record ('s, 't) ChainIter =
  ch_iter :: 's
  ch_chainedIter :: 't
  ch_firstDone :: bool


definition ChainIter_next ::
  "('s, 'a) advance \<Rightarrow> ('t, 'a) advance \<Rightarrow> (('s, 't) ChainIter, 'a) advance" where
  "ChainIter_next nxt nxtChained it =
     (if \<not> ch_firstDone it then
        (case nxt (ch_iter it) of
           None \<Rightarrow> None
         | Some (Some v, s') \<Rightarrow> Some (Some v, it\<lparr>ch_iter := s'\<rparr>)
         | Some (None, s') \<Rightarrow>
             (case nxtChained (ch_chainedIter it) of
                None \<Rightarrow> None
              | Some (r, t') \<Rightarrow>
                  Some (r, it\<lparr>ch_iter := s', ch_firstDone := True, ch_chainedIter := t'\<rparr>)))
      else
        (case nxtChained (ch_chainedIter it) of
           None \<Rightarrow> None
         | Some (r, t') \<Rightarrow> Some (r, it\<lparr>ch_chainedIter := t'\<rparr>)))"

subsection \<open>zip and enumerate\<close>

record ('s, 't) ZipIter =
  z_iter :: 's
  z_zippedIter :: 't
  z_anyDone :: bool

definition ZipIter_new :: "'s \<Rightarrow> 't \<Rightarrow> ('s, 't) ZipIter" where
  "ZipIter_new it zippedIter = \<lparr>z_iter = it, z_zippedIter = zippedIter, z_anyDone = False\<rparr>"

definition ZipIter_next ::
  "('s, 'a) advance \<Rightarrow> ('t, 'b) advance \<Rightarrow> (('s, 't) ZipIter, 'a \<times> 'b) advance" where
  "ZipIter_next nxt nxtZipped it =
     (if z_anyDone it then Some (None, it)
      else
        (case nxt (z_iter it) of
           None \<Rightarrow> None
         | Some (value, s') \<Rightarrow>
             (case nxtZipped (z_zippedIter it) of
                None \<Rightarrow> None
              | Some (zippedValue, t') \<Rightarrow>
                  (case (value, zippedValue) of
                     (Some v, Some w) \<Rightarrow> Some (Some (v, w), it\<lparr>z_iter := s', z_zippedIter := t'\<rparr>)
                   | _ \<Rightarrow> Some (None, it\<lparr>z_iter := s', z_zippedIter := t', z_anyDone := True\<rparr>)))))"


definition enumerate_next ::
  "('s, 'a) advance \<Rightarrow> ((InfiniteRangeGenerator, 's) ZipIter, int \<times> 'a) advance" where
  "enumerate_next nxt = ZipIter_next (GeneratorIter_next InfiniteRangeGenerator_call) nxt"

subsection \<open>intersperse\<close>

record ('s, 'g, 'a) IntersperseWithIter =
  is_iter :: 's
  is_separatorGetter :: 'g
  is_nextResult :: "'a option"
  is_separatorIsNext :: bool

text \<open>The constructor advances the upstream once (\<^verbatim>\<open>get the next result immediately, so
  that we can know if the iterator is empty or not\<close>).\<close>

definition IntersperseWithIter_new ::
  "('s, 'a) advance \<Rightarrow> 's \<Rightarrow> 'g \<Rightarrow> ('s, 'g, 'a) IntersperseWithIter option" where
  "IntersperseWithIter_new nxt it separatorGetter =
     (case nxt it of
        None \<Rightarrow> None
      | Some (next', s') \<Rightarrow>
          Some \<lparr>is_iter = s', is_separatorGetter = separatorGetter,
                is_nextResult = next', is_separatorIsNext = False\<rparr>)"

definition IntersperseWithIter_next ::
  "('s, 'a) advance \<Rightarrow> ('g \<Rightarrow> 'a \<times> 'g) \<Rightarrow> (('s, 'g, 'a) IntersperseWithIter, 'a) advance" where
  "IntersperseWithIter_next nxt getter it =
     (if is_separatorIsNext it then
        (let (sep, g') = getter (is_separatorGetter it) in
         Some (Some sep, it\<lparr>is_separatorIsNext := False, is_separatorGetter := g'\<rparr>))
      else
        (case is_nextResult it of
           Some tmpResult \<Rightarrow>
             (case nxt (is_iter it) of
                None \<Rightarrow> None
              | Some (Some next', s') \<Rightarrow>
                  Some (Some tmpResult,
                        it\<lparr>is_iter := s', is_nextResult := Some next', is_separatorIsNext := True\<rparr>)
              | Some (None, s') \<Rightarrow>
                  Some (Some tmpResult, it\<lparr>is_iter := s', is_nextResult := None\<rparr>))
         | None \<Rightarrow> Some (None, it)))"

text \<open>\<^verbatim>\<open>Getter\<close>: the functor that returns a constant; \<^verbatim>\<open>intersperse(separator)\<close> is
  \<^verbatim>\<open>IntersperseWithIter\<close> with a \<^verbatim>\<open>Getter\<close> of the separator.\<close>

definition Getter_call :: "'a \<Rightarrow> 'a \<times> 'a" where
  "Getter_call v = (v, v)"

definition intersperse_new ::
  "('s, 'a) advance \<Rightarrow> 's \<Rightarrow> 'a \<Rightarrow> ('s, 'a, 'a) IntersperseWithIter option" where
  "intersperse_new nxt it separator = IntersperseWithIter_new nxt it separator"

definition intersperse_next ::
  "('s, 'a) advance \<Rightarrow> (('s, 'a, 'a) IntersperseWithIter, 'a) advance" where
  "intersperse_next nxt = IntersperseWithIter_next nxt Getter_call"

subsection \<open>map, filter, filter\_map, inspect\<close>


definition MapIter_next :: "('s, 'a) advance \<Rightarrow> ('a \<Rightarrow> 'b) \<Rightarrow> ('s, 'b) advance" where
  "MapIter_next nxt mapFunction it =
     (case nxt it of
        None \<Rightarrow> None
      | Some (Some current, s') \<Rightarrow> Some (Some (mapFunction current), s')
      | Some (None, s') \<Rightarrow> Some (None, s'))"


partial_function (option) FilterIter_next ::
  "('s, 'a) advance \<Rightarrow> ('a \<Rightarrow> bool) \<Rightarrow> 's \<Rightarrow> ('a option \<times> 's) option" where
  "FilterIter_next nxt filterFunction it =
     (case nxt it of
        None \<Rightarrow> None
      | Some (None, s') \<Rightarrow> Some (None, s')
      | Some (Some current, s') \<Rightarrow>
          if filterFunction current then Some (Some current, s')
          else FilterIter_next nxt filterFunction s')"


partial_function (option) FilterMapIter_next ::
  "('s, 'a) advance \<Rightarrow> ('a \<Rightarrow> 'b option) \<Rightarrow> 's \<Rightarrow> ('b option \<times> 's) option" where
  "FilterMapIter_next nxt filterMapFunction it =
     (case nxt it of
        None \<Rightarrow> None
      | Some (None, s') \<Rightarrow> Some (None, s')
      | Some (Some current, s') \<Rightarrow>
          (case filterMapFunction current of
             Some result \<Rightarrow> Some (Some result, s')
           | None \<Rightarrow> FilterMapIter_next nxt filterMapFunction s'))"

definition InspectIter_new :: "'s \<Rightarrow> 'o \<Rightarrow> 's \<times> 'o" where
  "InspectIter_new it observed = (it, observed)"

definition InspectIter_next ::
  "('s, 'a) advance \<Rightarrow> ('o \<Rightarrow> 'a \<Rightarrow> 'o) \<Rightarrow> ('s \<times> 'o, 'a) advance" where
  "InspectIter_next nxt inspectCallback = (\<lambda>(it, observed).
     case nxt it of
       None \<Rightarrow> None
     | Some (Some v, s') \<Rightarrow> Some (Some v, (s', inspectCallback observed v))
     | Some (None, s') \<Rightarrow> Some (None, (s', observed)))"

subsection \<open>peekable\<close>

text \<open>\<^verbatim>\<open>_nextItem\<close> is a \<^verbatim>\<open>std::optional<std::optional<OutType>>\<close>.\<close>

record ('s, 'a) PeekableIter =
  pk_iter :: 's
  pk_nextItem :: "'a option option"

definition PeekableIter_new :: "'s \<Rightarrow> ('s, 'a) PeekableIter" where
  "PeekableIter_new it = \<lparr>pk_iter = it, pk_nextItem = None\<rparr>"

definition PeekableIter_peek :: "('s, 'a) advance \<Rightarrow> (('s, 'a) PeekableIter, 'a) advance" where
  "PeekableIter_peek nxt it =
     (case pk_nextItem it of
        None \<Rightarrow>
          (case nxt (pk_iter it) of
             None \<Rightarrow> None
           | Some (Some next', s') \<Rightarrow>
               Some (Some next', it\<lparr>pk_iter := s', pk_nextItem := Some (Some next')\<rparr>)
           | Some (None, s') \<Rightarrow> Some (None, it\<lparr>pk_iter := s', pk_nextItem := None\<rparr>))
      | Some nextValue \<Rightarrow> Some (nextValue, it))"

definition PeekableIter_next :: "('s, 'a) advance \<Rightarrow> (('s, 'a) PeekableIter, 'a) advance" where
  "PeekableIter_next nxt it =
     (case pk_nextItem it of
        Some tmpResult \<Rightarrow> Some (tmpResult, it\<lparr>pk_nextItem := None\<rparr>)
      | None \<Rightarrow>
          (case nxt (pk_iter it) of
             None \<Rightarrow> None
           | Some (r, s') \<Rightarrow> Some (r, it\<lparr>pk_iter := s'\<rparr>)))"

subsection \<open>skip\_while, take\_while, skip, take\<close>

text \<open>The predicate is a functor held by value; \<^verbatim>\<open>skip\<close> and \<^verbatim>\<open>take\<close> use a
  \<^verbatim>\<open>Counter\<close>, which changes with every call. A predicate is therefore a function of
  its own state and the item, returning the verdict and its state after the call.\<close>

record ('s, 'p) SkipWhileIter =
  sw_iter :: 's
  sw_predicate :: 'p
  sw_done :: bool

definition SkipWhileIter_new :: "'s \<Rightarrow> 'p \<Rightarrow> ('s, 'p) SkipWhileIter" where
  "SkipWhileIter_new it predicate = \<lparr>sw_iter = it, sw_predicate = predicate, sw_done = False\<rparr>"

partial_function (option) SkipWhileIter_loop ::
  "('s, 'a) advance \<Rightarrow> ('p \<Rightarrow> 'a \<Rightarrow> bool \<times> 'p) \<Rightarrow> 's \<Rightarrow> 'p \<Rightarrow> ('a option \<times> 's \<times> 'p) option" where
  "SkipWhileIter_loop nxt pred s p =
     (case nxt s of
        None \<Rightarrow> None
      | Some (None, s') \<Rightarrow> Some (None, s', p)
      | Some (Some v, s') \<Rightarrow>
          (let (b, p') = pred p v in
           if \<not> b then Some (Some v, s', p')
           else SkipWhileIter_loop nxt pred s' p'))"

definition SkipWhileIter_next ::
  "('s, 'a) advance \<Rightarrow> ('p \<Rightarrow> 'a \<Rightarrow> bool \<times> 'p) \<Rightarrow> (('s, 'p) SkipWhileIter, 'a) advance" where
  "SkipWhileIter_next nxt pred it =
     (if \<not> sw_done it then
        (case SkipWhileIter_loop nxt pred (sw_iter it) (sw_predicate it) of
           None \<Rightarrow> None
         | Some (r, s', p') \<Rightarrow> Some (r, it\<lparr>sw_done := True, sw_iter := s', sw_predicate := p'\<rparr>))
      else
        (case nxt (sw_iter it) of
           None \<Rightarrow> None
         | Some (r, s') \<Rightarrow> Some (r, it\<lparr>sw_iter := s'\<rparr>)))"

record ('s, 'p) TakeWhileIter =
  tw_iter :: 's
  tw_predicate :: 'p
  tw_done :: bool

definition TakeWhileIter_new :: "'s \<Rightarrow> 'p \<Rightarrow> ('s, 'p) TakeWhileIter" where
  "TakeWhileIter_new it predicate = \<lparr>tw_iter = it, tw_predicate = predicate, tw_done = False\<rparr>"

definition TakeWhileIter_next ::
  "('s, 'a) advance \<Rightarrow> ('p \<Rightarrow> 'a \<Rightarrow> bool \<times> 'p) \<Rightarrow> (('s, 'p) TakeWhileIter, 'a) advance" where
  "TakeWhileIter_next nxt pred it =
     (if tw_done it then Some (None, it)
      else
        (case nxt (tw_iter it) of
           None \<Rightarrow> None
         | Some (Some v, s') \<Rightarrow>
             (let (b, p') = pred (tw_predicate it) v in
              if b then Some (Some v, it\<lparr>tw_iter := s', tw_predicate := p'\<rparr>)
              else Some (None, it\<lparr>tw_iter := s', tw_predicate := p', tw_done := True\<rparr>))
         | Some (None, s') \<Rightarrow> Some (None, it\<lparr>tw_iter := s', tw_done := True\<rparr>)))"

text \<open>\<^verbatim>\<open>Counter::operator()(Any&&)\<close> ignores the item.\<close>

definition Counter_pred :: "Counter \<Rightarrow> 'a \<Rightarrow> bool \<times> Counter" where
  "Counter_pred c v = Counter_call c"


definition skip_next :: "('s, 'a) advance \<Rightarrow> (('s, Counter) SkipWhileIter, 'a) advance" where
  "skip_next nxt = SkipWhileIter_next nxt Counter_pred"

definition take_new :: "'s \<Rightarrow> int \<Rightarrow> ('s, Counter) TakeWhileIter" where
  "take_new it count = TakeWhileIter_new it (Counter_new count)"

definition take_next :: "('s, 'a) advance \<Rightarrow> (('s, Counter) TakeWhileIter, 'a) advance" where
  "take_next nxt = TakeWhileIter_next nxt Counter_pred"

subsection \<open>flatten\<close>

record ('s, 'i) FlattenIter =
  fl_iter :: 's
  fl_innerIter :: "'i option"

definition FlattenIter_advance ::
  "('s, 'i) advance \<Rightarrow> ('s, 'i) FlattenIter \<Rightarrow> (bool \<times> ('s, 'i) FlattenIter) option" where
  "FlattenIter_advance nxt it =
     (case nxt (fl_iter it) of
        None \<Rightarrow> None
      | Some (Some inner, s') \<Rightarrow> Some (True, it\<lparr>fl_iter := s', fl_innerIter := Some inner\<rparr>)
      | Some (None, s') \<Rightarrow> Some (False, it\<lparr>fl_iter := s', fl_innerIter := None\<rparr>))"


text \<open>The \<^verbatim>\<open>while (true)\<close> loop; it is entered with an inner iterator present, and
  \<^verbatim>\<open>advance()\<close> keeps one present whenever it returns true.\<close>

partial_function (option) FlattenIter_loop ::
  "('s, 'i) advance \<Rightarrow> ('i, 'a) advance \<Rightarrow> ('s, 'i) FlattenIter \<Rightarrow> ('a option \<times> ('s, 'i) FlattenIter) option" where
  "FlattenIter_loop nxt nxtInner it =
     (case fl_innerIter it of
        None \<Rightarrow> None
      | Some inner \<Rightarrow>
          (case nxtInner inner of
             None \<Rightarrow> None
           | Some (Some v, inner') \<Rightarrow> Some (Some v, it\<lparr>fl_innerIter := Some inner'\<rparr>)
           | Some (None, inner') \<Rightarrow>
               (case FlattenIter_advance nxt (it\<lparr>fl_innerIter := Some inner'\<rparr>) of
                  None \<Rightarrow> None
                | Some (ok, it') \<Rightarrow>
                    if \<not> ok then Some (None, it')
                    else FlattenIter_loop nxt nxtInner it')))"

definition FlattenIter_next ::
  "('s, 'i) advance \<Rightarrow> ('i, 'a) advance \<Rightarrow> (('s, 'i) FlattenIter, 'a) advance" where
  "FlattenIter_next nxt nxtInner it =
     (if fl_innerIter it = None then Some (None, it)
      else FlattenIter_loop nxt nxtInner it)"

subsection \<open>cycle\<close>

record 's CycleIter =
  cy_originalIter :: 's
  cy_iter :: 's
  cy_iterIsEmpty :: bool

definition CycleIter_new :: "'s \<Rightarrow> 's CycleIter" where
  "CycleIter_new it = \<lparr>cy_originalIter = it, cy_iter = it, cy_iterIsEmpty = True\<rparr>"

definition CycleIter_next :: "('s, 'a) advance \<Rightarrow> ('s CycleIter, 'a) advance" where
  "CycleIter_next nxt it =
     (case nxt (cy_iter it) of
        None \<Rightarrow> None
      | Some (Some v, s') \<Rightarrow> Some (Some v, it\<lparr>cy_iter := s', cy_iterIsEmpty := False\<rparr>)
      | Some (None, s') \<Rightarrow>
          if cy_iterIsEmpty it then Some (None, it\<lparr>cy_iter := s'\<rparr>)
          else
            (case nxt (cy_originalIter it) of
               None \<Rightarrow> None
             | Some (r, s'') \<Rightarrow> Some (r, it\<lparr>cy_iter := s''\<rparr>)))"

subsection \<open>Comparison consumers\<close>

text \<open>
  \<^verbatim>\<open>detail::compare\<close> and \<^verbatim>\<open>detail::compare_partial\<close>; the results are
  \<^verbatim>\<open>char\<close> values. They use the operators \<^verbatim>\<open>==\<close>, \<^verbatim>\<open><\<close> and \<^verbatim>\<open>>\<close> of
  the item type, which are parameters here (\<open>eq\<close>, \<open>lt\<close>, \<open>gt\<close>): for a floating-point
  item type none of the three holds when an operand is NaN, not even \<^verbatim>\<open>a == a\<close>.
\<close>

definition compare :: "('a \<Rightarrow> 'a \<Rightarrow> bool) \<Rightarrow> ('a \<Rightarrow> 'a \<Rightarrow> bool) \<Rightarrow> 'a \<Rightarrow> 'a \<Rightarrow> int" where
  "compare lt gt a b = (if lt a b then - 1 else if gt a b then 1 else 0)"

definition compare_partial ::
  "('a \<Rightarrow> 'a \<Rightarrow> bool) \<Rightarrow> ('a \<Rightarrow> 'a \<Rightarrow> bool) \<Rightarrow> ('a \<Rightarrow> 'a \<Rightarrow> bool) \<Rightarrow> 'a \<Rightarrow> 'a \<Rightarrow> int option" where
  "compare_partial eq lt gt a b =
     (if eq a b then Some 0
      else if lt a b then Some (- 1)
      else if gt a b then Some 1
      else None)"

text \<open>
  \<^verbatim>\<open>partial_cmp_by\<close> stores what the comparison function returns in a
  \<^verbatim>\<open>std::optional<char>\<close>. A comparison function may return any arithmetic type (the
  tests use \<^verbatim>\<open>a - b\<close> on \<^verbatim>\<open>int\<close>); its result is modelled by an \<open>int\<close>, and the
  conversion to \<^verbatim>\<open>char\<close>, taken as the signed 8-bit type, is written out.
\<close>

definition to_char :: "int \<Rightarrow> int" where
  "to_char v = (v + 128) mod 256 - 128"

partial_function (option) partial_cmp_by ::
  "('s, 'a) advance \<Rightarrow> ('t, 'a) advance \<Rightarrow> ('a \<Rightarrow> 'a \<Rightarrow> int option) \<Rightarrow> 's \<Rightarrow> 't
     \<Rightarrow> (int option \<times> 's \<times> 't) option" where
  "partial_cmp_by nxt nxtOther partialComparisonFunction it other =
     (case nxt it of
        None \<Rightarrow> None
      | Some (thisValue, s') \<Rightarrow>
          (case nxtOther other of
             None \<Rightarrow> None
           | Some (otherValue, t') \<Rightarrow>
               (case thisValue of
                  None \<Rightarrow>
                    (case otherValue of
                       Some y \<Rightarrow> Some (Some (- 1), s', t')
                     | None \<Rightarrow> Some (Some 0, s', t'))
                | Some x \<Rightarrow>
                    (case otherValue of
                       None \<Rightarrow> Some (Some 1, s', t')
                     | Some y \<Rightarrow>
                         (case map_option to_char (partialComparisonFunction x y) of
                            None \<Rightarrow> Some (None, s', t')
                          | Some compared \<Rightarrow>
                              if compared \<noteq> 0 then Some (Some compared, s', t')
                              else partial_cmp_by nxt nxtOther partialComparisonFunction s' t')))))"

definition partial_cmp ::
  "('s, 'a) advance \<Rightarrow> ('t, 'a) advance \<Rightarrow>
     ('a \<Rightarrow> 'a \<Rightarrow> bool) \<Rightarrow> ('a \<Rightarrow> 'a \<Rightarrow> bool) \<Rightarrow> ('a \<Rightarrow> 'a \<Rightarrow> bool) \<Rightarrow> 's \<Rightarrow> 't
     \<Rightarrow> (int option \<times> 's \<times> 't) option" where
  "partial_cmp nxt nxtOther eq lt gt it other =
     partial_cmp_by nxt nxtOther (compare_partial eq lt gt) it other"

text \<open>
  \<^verbatim>\<open>cmp_by\<close> wraps the comparison function in a lambda whose return type is
  \<^verbatim>\<open>std::optional<OutType>\<close>, so the result of the comparison function passes through the
  item type before \<^verbatim>\<open>partial_cmp_by\<close> turns it into a \<^verbatim>\<open>char\<close>. The parameter
  \<open>as_OutType\<close> is that conversion, on the numeric value; it is the identity for an item
  type such as \<^verbatim>\<open>int\<close>, and maps every value but \<open>0\<close> to \<open>1\<close> for \<^verbatim>\<open>bool\<close>. The result of \<^verbatim>\<open>partial_cmp_by\<close> is dereferenced
  unchecked; the wrapped comparison function never returns an empty value, and the model
  gives no result for an empty one.
\<close>

definition cmp_by ::
  "('s, 'a) advance \<Rightarrow> ('t, 'a) advance \<Rightarrow> ('a \<Rightarrow> 'a \<Rightarrow> int) \<Rightarrow> (int \<Rightarrow> int) \<Rightarrow> 's \<Rightarrow> 't
     \<Rightarrow> (int \<times> 's \<times> 't) option" where
  "cmp_by nxt nxtOther comparisonFunction as_OutType it other =
     (case partial_cmp_by nxt nxtOther
             (\<lambda>a b. Some (as_OutType (comparisonFunction a b))) it other of
        None \<Rightarrow> None
      | Some (None, s', t') \<Rightarrow> None
      | Some (Some c, s', t') \<Rightarrow> Some (c, s', t'))"

definition cmp ::
  "('s, 'a) advance \<Rightarrow> ('t, 'a) advance \<Rightarrow>
     ('a \<Rightarrow> 'a \<Rightarrow> bool) \<Rightarrow> ('a \<Rightarrow> 'a \<Rightarrow> bool) \<Rightarrow> (int \<Rightarrow> int) \<Rightarrow> 's \<Rightarrow> 't
     \<Rightarrow> (int \<times> 's \<times> 't) option" where
  "cmp nxt nxtOther lt gt as_OutType it other =
     cmp_by nxt nxtOther (compare lt gt) as_OutType it other"

subsection \<open>Auxiliary functions for stating properties\<close>

text \<open>\<open>pull_n nxt k l s\<close>: \<open>k\<close> successive advancement calls from state \<open>s\<close>; the result of
  the last call (or \<open>l\<close> when \<open>k = 0\<close>) and the state reached.\<close>

fun pull_n :: "('s, 'a) advance \<Rightarrow> nat \<Rightarrow> 'a option \<Rightarrow> 's \<Rightarrow> ('a option \<times> 's) option" where
  "pull_n nxt 0 l s = Some (l, s)"
| "pull_n nxt (Suc k) l s = (case nxt s of None \<Rightarrow> None | Some (r, s') \<Rightarrow> pull_n nxt k r s')"

text \<open>\<open>pulls nxt k s\<close>: the results of the first \<open>k\<close> advancement calls from state \<open>s\<close>,
  in order (an item, or \<open>None\<close> for a call that signalled exhaustion), and the state after
  them. It is defined for every sequence whose calls return, ending or not.\<close>

fun pulls :: "('s, 'a) advance \<Rightarrow> nat \<Rightarrow> 's \<Rightarrow> ('a option list \<times> 's) option" where
  "pulls nxt 0 s = Some ([], s)"
| "pulls nxt (Suc k) s =
     (case nxt s of
        None \<Rightarrow> None
      | Some (r, s') \<Rightarrow>
          (case pulls nxt k s' of
             None \<Rightarrow> None
           | Some (rs, t) \<Rightarrow> Some (r # rs, t)))"

text \<open>\<open>interspersed sep xs\<close>: the items of \<open>xs\<close> with \<open>sep\<close> between consecutive items.\<close>

fun interspersed :: "'a \<Rightarrow> 'a list \<Rightarrow> 'a list" where
  "interspersed sep [] = []"
| "interspersed sep [x] = [x]"
| "interspersed sep (x # y # r) = x # sep # interspersed sep (y # r)"




section \<open>Properties\<close>

subsection \<open>Collecting and yielding\<close>

lemma yields_collect_loop:
  "yields nxt s xs t \<Longrightarrow> collect_loop nxt s acc = Some (acc @ xs, t)"
proof (induction xs arbitrary: s acc)
  case Nil
  then show ?case by (subst collect_loop.simps) simp
next
  case (Cons x xs)
  then show ?case
    by (subst collect_loop.simps) (auto split: option.splits prod.splits)
qed

lemma collect_loop_yields:
  assumes "collect_loop nxt s acc = Some y"
  shows "\<exists>xs. fst y = acc @ xs \<and> yields nxt s xs (snd y)"
  using assms
proof (induct rule: collect_loop.raw_induct[rotated 1, consumes 1, case_names step])
  case (step collect_loop nxt s coll y)
  show ?case
  proof (cases "nxt s")
    case None
    with step(2) show ?thesis by simp
  next
    case (Some p)
    obtain r s' where p: "p = (r, s')" by (cases p)
    show ?thesis
    proof (cases r)
      case None
      with step(2) Some p have "y = (coll, s')" by simp
      with Some p None show ?thesis by (intro exI[of _ "[]"]) simp
    next
      case (Some v)
      with step(2) \<open>nxt s = Some p\<close> p have "collect_loop nxt s' (coll @ [v]) = Some y" by simp
      from step(1)[OF this] obtain xs where "fst y = (coll @ [v]) @ xs" "yields nxt s' xs (snd y)"
        by blast
      with Some p \<open>nxt s = Some p\<close> show ?thesis by (intro exI[of _ "v # xs"]) simp
    qed
  qed
qed

text \<open>\<^verbatim>\<open>collect\<close> returns the list \<open>xs\<close> exactly when the sequence yields \<open>xs\<close> and then
  signals exhaustion.\<close>

lemma collect_iff_yields: "collect nxt s = Some (xs, t) \<longleftrightarrow> yields nxt s xs t"
  using collect_loop_yields[of nxt s "[]" "(xs, t)"] yields_collect_loop[of nxt s xs t "[]"]
  by (auto simp: collect_def)

subsection \<open>step\_by with a step that is not positive\<close>

lemma StepByIter_invalid_next:
  "sb_invalid it \<Longrightarrow> StepByIter_next nxt it = Some (None, it)"
  by (simp add: StepByIter_next_def)

lemma StepByIter_invalid_advance_n:
  "sb_invalid it \<Longrightarrow> advance_n (StepByIter_next nxt) k it = Some it"
  by (induction k) (simp_all add: StepByIter_invalid_next)

text \<open>
  Claim C5. For every upstream and every step \<open>n \<le> 0\<close>, \<^verbatim>\<open>step_by(n)\<close> is empty from
  the first advancement call on: the call returns (whatever the upstream would do) and
  signals exhaustion, any number of calls leave the adaptor as it was built, with the
  upstream's state and its call counter untouched, and collecting gives the empty list. No
  failure is raised.
\<close>

theorem step_by_nonpositive_is_empty:
  "n \<le> 0 \<Longrightarrow>
     StepByIter_next (counted nxt) (StepByIter_new (s, c) n) = Some (None, StepByIter_new (s, c) n)
   \<and> advance_n (StepByIter_next (counted nxt)) k (StepByIter_new (s, c) n) = Some (StepByIter_new (s, c) n)
   \<and> collect (StepByIter_next (counted nxt)) (StepByIter_new (s, c) n) = Some ([], StepByIter_new (s, c) n)"
  by (simp add: StepByIter_invalid_next StepByIter_invalid_advance_n collect_iff_yields StepByIter_new_def)

theorem step_by_nonpositive_is_empty_witness:
  "(0::int) \<le> 0 \<and>
     StepByIter_next (counted range_next) (StepByIter_new (rusty_range 0 10, 0) 0)
       = Some (None, StepByIter_new (rusty_range 0 10, 0) 0)
   \<and> advance_n (StepByIter_next (counted range_next)) 7 (StepByIter_new (rusty_range 0 10, 0) 0)
       = Some (StepByIter_new (rusty_range 0 10, 0) 0)
   \<and> collect (StepByIter_next (counted range_next)) (StepByIter_new (rusty_range 0 10, 0) 0)
       = Some ([], StepByIter_new (rusty_range 0 10, 0) 0)"
  using step_by_nonpositive_is_empty[of 0 range_next "rusty_range 0 10" 0 7] by simp

subsection \<open>Auxiliary facts\<close>

lemma yields_Cons_iff:
  "yields nxt s (x # xs) t \<longleftrightarrow> (\<exists>s'. nxt s = Some (Some x, s') \<and> yields nxt s' xs t)"
proof (cases "nxt s")
  case None
  then show ?thesis by simp
next
  case (Some p)
  obtain r s' where p: "p = (r, s')" by (cases p)
  show ?thesis
  proof (cases r)
    case None
    with Some p show ?thesis by simp
  next
    case (Some y)
    with \<open>nxt s = Some p\<close> p show ?thesis by auto
  qed
qed

lemma yields_ConsD:
  "yields nxt s (x # xs) t \<Longrightarrow> \<exists>s'. nxt s = Some (Some x, s') \<and> yields nxt s' xs t"
  by (simp only: yields_Cons_iff)

lemma sticky_next:
  "sticky nxt \<Longrightarrow> nxt s = Some (None, t) \<Longrightarrow> \<exists>t'. nxt t = Some (None, t')"
  by (auto simp: sticky_def)

lemma StepByIter_loop_pull_n:
  "nat (n - i) = k \<Longrightarrow> StepByIter_loop nxt i n l s = pull_n nxt k l s"
proof (induction k arbitrary: i l s)
  case 0
  then have "\<not> i < n" by simp
  then show ?case by (subst StepByIter_loop.simps) simp
next
  case (Suc k)
  then have lt: "i < n" and k: "nat (n - (i + 1)) = k" by linarith+
  show ?case
    by (subst StepByIter_loop.simps) (simp add: lt Suc.IH[OF k] split: option.splits)
qed

lemma sticky_FiniteGeneratorIter: "sticky (FiniteGeneratorIter_next g)"
  unfolding sticky_def
  by (auto simp: FiniteGeneratorIter_next_def Let_def split: if_splits prod.splits option.splits)

lemma range_0_10_yields:
  "yields range_next (rusty_range 0 10) [0, 1, 2, 3, 4, 5, 6, 7, 8, 9]
     \<lparr>fg_generatorFunction = \<lparr>frg_value = 10, frg_end = 10, frg_step = 1\<rparr>, fg_done = True\<rparr>"
  by (simp add: range_next_def rusty_range_def FiniteGeneratorIter_next_def
      FiniteGeneratorIter_new_def FiniteRangeGenerator_call_def)


lemma yields_counted:
  "yields nxt s xs t \<Longrightarrow> yields (counted nxt) (s, c) xs (t, c + length xs + 1)"
proof (induction xs arbitrary: s c)
  case Nil
  then show ?case by (simp add: counted_def)
next
  case (Cons x xs)
  from yields_ConsD[OF Cons.prems] obtain s' where
    s': "nxt s = Some (Some x, s')" "yields nxt s' xs t" by blast
  from Cons.IH[OF s'(2), of "c + 1"] s'(1) show ?case
    by (simp add: yields_Cons_iff counted_def)
qed

text \<open>The wrapper of a collection yields the collection.\<close>

lemma CppIteratorWrapper_next_Nil: "CppIteratorWrapper_next [] = Some (None, [])"
  by (simp add: CppIteratorWrapper_next_def)

lemma CppIteratorWrapper_next_Cons: "CppIteratorWrapper_next (x # r) = Some (Some x, r)"
  by (simp add: CppIteratorWrapper_next_def)

lemma CppIteratorWrapper_yields_iff:
  "yields CppIteratorWrapper_next s xs t \<longleftrightarrow> s = xs \<and> t = []"
proof (induction xs arbitrary: s)
  case Nil
  show ?case
    by (cases s) (auto simp: CppIteratorWrapper_next_Nil CppIteratorWrapper_next_Cons)
next
  case (Cons x xs)
  show ?case
    by (cases s)
       (auto simp: yields_Cons_iff Cons.IH CppIteratorWrapper_next_Nil CppIteratorWrapper_next_Cons)
qed

lemma CppIteratorWrapper_yields: "yields CppIteratorWrapper_next (iter xs) xs []"
  by (simp add: CppIteratorWrapper_yields_iff iter_def)

subsection \<open>zip of two sequences that end\<close>

lemma counted_Some: "nxt s = Some (r, s') \<Longrightarrow> counted nxt (s, c) = Some (r, (s', c + 1))"
  by (simp add: counted_def)

lemma ZipIter_yields:
  "yields nxtA a xs ta \<Longrightarrow> yields nxtB b ys tb \<Longrightarrow>
   \<exists>a' b'. yields (ZipIter_next (counted nxtA) (counted nxtB))
            \<lparr>z_iter = (a, ca), z_zippedIter = (b, cb), z_anyDone = False\<rparr>
            (zip xs ys)
            \<lparr>z_iter = (a', ca + min (length xs) (length ys) + 1),
             z_zippedIter = (b', cb + min (length xs) (length ys) + 1), z_anyDone = True\<rparr>
      \<and> (if length ys < length xs then yields nxtA a' (drop (Suc (length ys)) xs) ta else a' = ta)
      \<and> (if length xs < length ys then yields nxtB b' (drop (Suc (length xs)) ys) tb else b' = tb)"
proof (induction xs arbitrary: ys a b ca cb)
  case Nil
  from Nil(1) have a: "nxtA a = Some (None, ta)" by simp
  show ?case
  proof (cases ys)
    case Nil
    with \<open>yields nxtB b ys tb\<close> have b: "nxtB b = Some (None, tb)" by simp
    have "ZipIter_next (counted nxtA) (counted nxtB)
            \<lparr>z_iter = (a, ca), z_zippedIter = (b, cb), z_anyDone = False\<rparr>
          = Some (None, \<lparr>z_iter = (ta, ca + 1), z_zippedIter = (tb, cb + 1), z_anyDone = True\<rparr>)"
      using a b by (simp add: ZipIter_next_def counted_def)
    then show ?thesis using Nil by simp
  next
    case (Cons y r)
    from yields_ConsD[OF \<open>yields nxtB b ys tb\<close>[unfolded Cons]] obtain b' where
      b: "nxtB b = Some (Some y, b')" "yields nxtB b' r tb" by blast
    have "ZipIter_next (counted nxtA) (counted nxtB)
            \<lparr>z_iter = (a, ca), z_zippedIter = (b, cb), z_anyDone = False\<rparr>
          = Some (None, \<lparr>z_iter = (ta, ca + 1), z_zippedIter = (b', cb + 1), z_anyDone = True\<rparr>)"
      using a b(1) by (simp add: ZipIter_next_def counted_def)
    then show ?thesis using Cons b(2) by simp
  qed
next
  case (Cons x xs)
  from yields_ConsD[OF Cons.prems(1)] obtain a' where
    a: "nxtA a = Some (Some x, a')" "yields nxtA a' xs ta" by blast
  show ?case
  proof (cases ys)
    case Nil
    with Cons.prems(2) have b: "nxtB b = Some (None, tb)" by simp
    have "ZipIter_next (counted nxtA) (counted nxtB)
            \<lparr>z_iter = (a, ca), z_zippedIter = (b, cb), z_anyDone = False\<rparr>
          = Some (None, \<lparr>z_iter = (a', ca + 1), z_zippedIter = (tb, cb + 1), z_anyDone = True\<rparr>)"
      using a(1) b by (simp add: ZipIter_next_def counted_def)
    then show ?thesis using Nil a(2) by simp
  next
    case (Cons y r)
    from yields_ConsD[OF Cons.prems(2)[unfolded Cons]] obtain b' where
      b: "nxtB b = Some (Some y, b')" "yields nxtB b' r tb" by blast
    have step: "ZipIter_next (counted nxtA) (counted nxtB)
            \<lparr>z_iter = (a, ca), z_zippedIter = (b, cb), z_anyDone = False\<rparr>
          = Some (Some (x, y), \<lparr>z_iter = (a', ca + 1), z_zippedIter = (b', cb + 1), z_anyDone = False\<rparr>)"
      using a(1) b(1) by (simp add: ZipIter_next_def counted_def)
    from Cons.IH[OF a(2) b(2), of "ca + 1" "cb + 1"] obtain a'' b'' where
      ih: "yields (ZipIter_next (counted nxtA) (counted nxtB))
            \<lparr>z_iter = (a', ca + 1), z_zippedIter = (b', cb + 1), z_anyDone = False\<rparr>
            (zip xs r)
            \<lparr>z_iter = (a'', ca + 1 + min (length xs) (length r) + 1),
             z_zippedIter = (b'', cb + 1 + min (length xs) (length r) + 1), z_anyDone = True\<rparr>"
        "if length r < length xs then yields nxtA a'' (drop (Suc (length r)) xs) ta else a'' = ta"
        "if length xs < length r then yields nxtB b'' (drop (Suc (length xs)) r) tb else b'' = tb"
      by blast
    have "yields (ZipIter_next (counted nxtA) (counted nxtB))
            \<lparr>z_iter = (a, ca), z_zippedIter = (b, cb), z_anyDone = False\<rparr>
            (zip (x # xs) ys)
            \<lparr>z_iter = (a'', ca + min (length (x # xs)) (length ys) + 1),
             z_zippedIter = (b'', cb + min (length (x # xs)) (length ys) + 1), z_anyDone = True\<rparr>"
      using ih(1) step Cons by (simp add: yields_Cons_iff)
    moreover have "if length ys < length (x # xs) then yields nxtA a'' (drop (Suc (length ys)) (x # xs)) ta else a'' = ta"
      using ih(2) Cons by simp
    moreover have "if length (x # xs) < length ys then yields nxtB b'' (drop (Suc (length (x # xs))) ys) tb else b'' = tb"
      using ih(3) Cons by simp
    ultimately show ?thesis by blast
  qed
qed

subsection \<open>intersperse\<close>

lemma length_interspersed: "length (interspersed sep xs) = 2 * length xs - 1"
  by (induction sep xs rule: interspersed.induct) auto

lemma interspersed_even: "i < length xs \<Longrightarrow> interspersed sep xs ! (2 * i) = xs ! i"
proof (induction sep xs arbitrary: i rule: interspersed.induct)
  case (1 sep)
  then show ?case by simp
next
  case (2 sep x)
  then show ?case by simp
next
  case (3 sep x y r)
  show ?case
  proof (cases i)
    case 0
    then show ?thesis by simp
  next
    case (Suc j)
    with 3(2) have "j < length (y # r)" by simp
    from 3(1)[OF this] show ?thesis using Suc by simp
  qed
qed

lemma interspersed_odd: "Suc i < length xs \<Longrightarrow> interspersed sep xs ! Suc (2 * i) = sep"
proof (induction sep xs arbitrary: i rule: interspersed.induct)
  case (1 sep)
  then show ?case by simp
next
  case (2 sep x)
  then show ?case by simp
next
  case (3 sep x y r)
  show ?case
  proof (cases i)
    case 0
    then show ?thesis by simp
  next
    case (Suc j)
    with 3(2) have "Suc j < length (y # r)" by simp
    from 3(1)[OF this] show ?thesis using Suc by simp
  qed
qed

lemma intersperse_next_yields:
  "yields nxt s r t \<Longrightarrow>
   yields (intersperse_next nxt)
     \<lparr>is_iter = s, is_separatorGetter = sep, is_nextResult = Some x, is_separatorIsNext = False\<rparr>
     (interspersed sep (x # r))
     \<lparr>is_iter = t, is_separatorGetter = sep, is_nextResult = None, is_separatorIsNext = False\<rparr>"
proof (induction r arbitrary: s x)
  case Nil
  then have "nxt s = Some (None, t)" by simp
  then show ?case
    by (simp add: yields_Cons_iff intersperse_next_def IntersperseWithIter_next_def)
next
  case (Cons y r)
  from yields_ConsD[OF Cons.prems] obtain s' where
    s': "nxt s = Some (Some y, s')" "yields nxt s' r t" by blast
  from Cons.IH[OF s'(2), of y] s'(1) show ?case
    by (simp add: yields_Cons_iff intersperse_next_def IntersperseWithIter_next_def Getter_call_def)
qed

text \<open>
  Claim C8. For every upstream that yields the \<open>L\<close> items \<open>xs\<close>, \<^verbatim>\<open>intersperse(sep)\<close> is
  built and collects to a list of \<open>2L - 1\<close> items when \<open>L \<ge> 1\<close> and of no item when
  \<open>L = 0\<close>; the upstream items stand at the even positions and the separator at the odd
  positions, so a separator stands only between two consecutive items, never before the first
  or after the last.
\<close>

theorem intersperse_between_items:
  assumes "yields nxt s xs t"
  shows "\<exists>it. intersperse_new nxt s sep = Some it
      \<and> collect (intersperse_next nxt) it =
          Some (interspersed sep xs,
                \<lparr>is_iter = t, is_separatorGetter = sep, is_nextResult = None, is_separatorIsNext = False\<rparr>)
      \<and> length (interspersed sep xs) = (if length xs = 0 then 0 else 2 * length xs - 1)
      \<and> (\<forall>i < length xs. interspersed sep xs ! (2 * i) = xs ! i)
      \<and> (\<forall>i. Suc i < length xs \<longrightarrow> interspersed sep xs ! (2 * i + 1) = sep)"
proof (cases xs)
  case Nil
  with assms have "nxt s = Some (None, t)" by simp
  then show ?thesis using Nil
    by (simp add: collect_iff_yields intersperse_new_def IntersperseWithIter_new_def
        intersperse_next_def IntersperseWithIter_next_def)
next
  case (Cons x r)
  from yields_ConsD[OF assms[unfolded Cons]] obtain s' where
    s': "nxt s = Some (Some x, s')" "yields nxt s' r t" by blast
  have new: "intersperse_new nxt s sep =
      Some \<lparr>is_iter = s', is_separatorGetter = sep, is_nextResult = Some x, is_separatorIsNext = False\<rparr>"
    using s'(1) by (simp add: intersperse_new_def IntersperseWithIter_new_def)
  have "collect (intersperse_next nxt)
          \<lparr>is_iter = s', is_separatorGetter = sep, is_nextResult = Some x, is_separatorIsNext = False\<rparr> =
          Some (interspersed sep xs,
                \<lparr>is_iter = t, is_separatorGetter = sep, is_nextResult = None, is_separatorIsNext = False\<rparr>)"
    unfolding collect_iff_yields Cons by (rule intersperse_next_yields[OF s'(2)])
  with new show ?thesis
    by (simp add: length_interspersed interspersed_even interspersed_odd)
qed

theorem intersperse_between_items_witness:
  "yields CppIteratorWrapper_next (iter [1, 2, 3 :: int]) [1, 2, 3] []
   \<and> (\<exists>it. intersperse_new CppIteratorWrapper_next (iter [1, 2, 3 :: int]) (- 1) = Some it
      \<and> collect (intersperse_next CppIteratorWrapper_next) it =
          Some ([1, - 1, 2, - 1, 3],
                \<lparr>is_iter = [], is_separatorGetter = - 1, is_nextResult = None, is_separatorIsNext = False\<rparr>))"
proof -
  have y: "yields CppIteratorWrapper_next (iter [1, 2, 3 :: int]) [1, 2, 3] []"
    by (rule CppIteratorWrapper_yields)
  from intersperse_between_items[OF y, of "- 1"] y show ?thesis by auto
qed

subsection \<open>cycle\<close>

lemma yields_drop_step:
  "yields nxt c (drop j xs) t \<Longrightarrow> j < length xs \<Longrightarrow>
   \<exists>c'. nxt c = Some (Some (xs ! j), c') \<and> yields nxt c' (drop (Suc j) xs) t"
proof -
  assume y: "yields nxt c (drop j xs) t" and j: "j < length xs"
  then have "drop j xs = xs ! j # drop (Suc j) xs" by (simp add: Cons_nth_drop_Suc)
  with y have "yields nxt c (xs ! j # drop (Suc j) xs) t" by simp
  from yields_ConsD[OF this] show ?thesis .
qed

lemma CycleIter_next_step:
  assumes y: "yields nxt s xs t" and ne: "xs \<noteq> []"
    and c: "yields nxt c (drop j xs) t" and j: "j \<le> length xs" and e: "e \<longrightarrow> j = 0"
  shows "\<exists>c' j'. CycleIter_next nxt \<lparr>cy_originalIter = s, cy_iter = c, cy_iterIsEmpty = e\<rparr> =
           Some (Some (xs ! (j mod length xs)),
                 \<lparr>cy_originalIter = s, cy_iter = c', cy_iterIsEmpty = False\<rparr>)
         \<and> yields nxt c' (drop j' xs) t \<and> j' \<le> length xs \<and> j' mod length xs = Suc j mod length xs"
proof (cases "j < length xs")
  case True
  from yields_drop_step[OF c True] obtain c' where
    c': "nxt c = Some (Some (xs ! j), c')" "yields nxt c' (drop (Suc j) xs) t" by blast
  have "CycleIter_next nxt \<lparr>cy_originalIter = s, cy_iter = c, cy_iterIsEmpty = e\<rparr> =
           Some (Some (xs ! (j mod length xs)),
                 \<lparr>cy_originalIter = s, cy_iter = c', cy_iterIsEmpty = False\<rparr>)"
    using c'(1) True by (simp add: CycleIter_next_def)
  with c'(2) True show ?thesis by (intro exI[of _ c'] exI[of _ "Suc j"]) simp
next
  case False
  with j have jl: "j = length xs" by simp
  with c have c0: "nxt c = Some (None, t)" by simp
  from jl ne e have ne': "\<not> e" by auto
  have "0 < length xs" using ne by (cases xs) simp_all
  with y have "yields nxt s (drop 0 xs) t" by simp
  from yields_drop_step[OF this \<open>0 < length xs\<close>] obtain s1 where
    s1: "nxt s = Some (Some (xs ! 0), s1)" "yields nxt s1 (drop (Suc 0) xs) t" by blast
  have "CycleIter_next nxt \<lparr>cy_originalIter = s, cy_iter = c, cy_iterIsEmpty = e\<rparr> =
           Some (Some (xs ! (j mod length xs)),
                 \<lparr>cy_originalIter = s, cy_iter = s1, cy_iterIsEmpty = False\<rparr>)"
    using c0 s1(1) ne' jl by (simp add: CycleIter_next_def)
  moreover have "Suc 0 \<le> length xs" using ne by (cases xs) simp_all
  moreover have "Suc 0 mod length xs = Suc j mod length xs" unfolding jl
    by (simp add: mod_Suc)
  ultimately show ?thesis using s1(2) by (intro exI[of _ s1] exI[of _ "Suc 0"]) simp
qed

lemma CycleIter_pull_n:
  assumes y: "yields nxt s xs t" and ne: "xs \<noteq> []"
  shows "yields nxt c (drop j xs) t \<Longrightarrow> j \<le> length xs \<Longrightarrow> (e \<longrightarrow> j = 0) \<Longrightarrow>
    \<exists>it'. pull_n (CycleIter_next nxt) (Suc k) l
             \<lparr>cy_originalIter = s, cy_iter = c, cy_iterIsEmpty = e\<rparr> =
           Some (Some (xs ! ((j + k) mod length xs)), it')
         \<and> cy_originalIter it' = s"
proof (induction k arbitrary: c j e l)
  case 0
  from CycleIter_next_step[OF y ne 0(1) 0(2) 0(3)] show ?case by auto
next
  case (Suc k)
  from CycleIter_next_step[OF y ne Suc.prems(1) Suc.prems(2) Suc.prems(3)] obtain c' j' where
    st: "CycleIter_next nxt \<lparr>cy_originalIter = s, cy_iter = c, cy_iterIsEmpty = e\<rparr> =
           Some (Some (xs ! (j mod length xs)),
                 \<lparr>cy_originalIter = s, cy_iter = c', cy_iterIsEmpty = False\<rparr>)"
    and c': "yields nxt c' (drop j' xs) t" and j': "j' \<le> length xs"
    and m: "j' mod length xs = Suc j mod length xs" by blast
  from Suc.IH[OF c' j', of False "Some (xs ! (j mod length xs))"] obtain it' where
    it': "pull_n (CycleIter_next nxt) (Suc k) (Some (xs ! (j mod length xs)))
             \<lparr>cy_originalIter = s, cy_iter = c', cy_iterIsEmpty = False\<rparr> =
           Some (Some (xs ! ((j' + k) mod length xs)), it')" "cy_originalIter it' = s"
    by auto
  have "(j' + k) mod length xs = (Suc j + k) mod length xs"
    using m by (metis mod_add_left_eq)
  then have "(j' + k) mod length xs = (j + Suc k) mod length xs" by simp
  with it' st show ?case by (subst pull_n.simps) auto
qed

lemma CycleIter_empty_pull_n:
  assumes st: "sticky nxt"
  shows "nxt c = Some (None, c') \<Longrightarrow>
    \<exists>it'. pull_n (CycleIter_next nxt) (Suc k) l
             \<lparr>cy_originalIter = s, cy_iter = c, cy_iterIsEmpty = True\<rparr> = Some (None, it')"
proof (induction k arbitrary: c c' l)
  case 0
  then show ?case by (simp add: CycleIter_next_def)
next
  case (Suc k)
  from sticky_next[OF st Suc.prems] obtain c'' where c'': "nxt c' = Some (None, c'')" by blast
  from Suc.IH[OF c'', of None] obtain it' where
    "pull_n (CycleIter_next nxt) (Suc k) None
             \<lparr>cy_originalIter = s, cy_iter = c', cy_iterIsEmpty = True\<rparr> = Some (None, it')" by blast
  then show ?case using Suc.prems by (subst pull_n.simps) (simp add: CycleIter_next_def)
qed

lemma range_0_3_yields:
  "yields range_next (rusty_range 0 3) [0, 1, 2]
     \<lparr>fg_generatorFunction = \<lparr>frg_value = 3, frg_end = 3, frg_step = 1\<rparr>, fg_done = True\<rparr>"
  by (simp add: range_next_def rusty_range_def FiniteGeneratorIter_next_def
      FiniteGeneratorIter_new_def FiniteRangeGenerator_call_def)

lemma cycle_range_take_10:
  "\<exists>t. yields (take_next (CycleIter_next range_next)) (take_new (CycleIter_new (rusty_range 0 3)) 10)
     [0, 1, 2, 0, 1, 2, 0, 1, 2, 0] t"
  by (simp add: take_next_def take_new_def TakeWhileIter_next_def TakeWhileIter_new_def
      Counter_pred_def Counter_call_def Counter_new_def CycleIter_next_def CycleIter_new_def
      range_next_def rusty_range_def FiniteGeneratorIter_next_def
      FiniteGeneratorIter_new_def FiniteRangeGenerator_call_def)

text \<open>
  Claim C7. \<^verbatim>\<open>cycle()\<close> repeats the upstream for ever: when the upstream yields the
  non-empty list \<open>xs\<close>, call number \<open>k + 1\<close> on the cycled sequence returns the item
  \<open>xs ! (k mod length xs)\<close>, for every \<open>k\<close>, and the copy of the original upstream that
  the restarts are made from is never changed. When the first pass yields nothing (and the
  upstream is sticky), every call on the cycled sequence returns and signals exhaustion. In
  particular \<^verbatim>\<open>range(0, 3).cycle().take(10)\<close> collects to
  \<open>[0, 1, 2, 0, 1, 2, 0, 1, 2, 0]\<close>.
\<close>

theorem cycle_repeats:
  "(yields nxt s xs t \<and> xs \<noteq> [] \<longrightarrow>
      (\<exists>it'. pull_n (CycleIter_next nxt) (Suc k) None (CycleIter_new s) =
                Some (Some (xs ! (k mod length xs)), it')
            \<and> cy_originalIter it' = s))
   \<and> (sticky nxt \<and> yields nxt s [] t \<longrightarrow>
      (\<exists>it'. pull_n (CycleIter_next nxt) (Suc k) None (CycleIter_new s) = Some (None, it')))
   \<and> map_option fst (collect (take_next (CycleIter_next range_next))
                       (take_new (CycleIter_new (rusty_range 0 3)) 10))
       = Some [0, 1, 2, 0, 1, 2, 0, 1, 2, 0]"
proof (intro conjI impI)
  assume a: "yields nxt s xs t \<and> xs \<noteq> []"
  then have y: "yields nxt s xs t" and ne: "xs \<noteq> []" by simp_all
  from y have "yields nxt s (drop 0 xs) t" by simp
  from CycleIter_pull_n[OF y ne this, of True k None]
  show "\<exists>it'. pull_n (CycleIter_next nxt) (Suc k) None (CycleIter_new s) =
                Some (Some (xs ! (k mod length xs)), it')
            \<and> cy_originalIter it' = s"
    by (simp add: CycleIter_new_def)
next
  assume a: "sticky nxt \<and> yields nxt s [] t"
  then have st: "sticky nxt" and "nxt s = Some (None, t)" by simp_all
  from CycleIter_empty_pull_n[OF st this(2), of k None s]
  show "\<exists>it'. pull_n (CycleIter_next nxt) (Suc k) None (CycleIter_new s) = Some (None, it')"
    by (simp add: CycleIter_new_def)
next
  from cycle_range_take_10 obtain t where
    "yields (take_next (CycleIter_next range_next)) (take_new (CycleIter_new (rusty_range 0 3)) 10)
      [0, 1, 2, 0, 1, 2, 0, 1, 2, 0] t" by blast
  then have "collect (take_next (CycleIter_next range_next)) (take_new (CycleIter_new (rusty_range 0 3)) 10)
      = Some ([0, 1, 2, 0, 1, 2, 0, 1, 2, 0], t)"
    by (simp only: collect_iff_yields)
  then show "map_option fst (collect (take_next (CycleIter_next range_next))
                       (take_new (CycleIter_new (rusty_range 0 3)) 10))
       = Some [0, 1, 2, 0, 1, 2, 0, 1, 2, 0]" by simp
qed

lemma range_0_0_yields:
  "yields range_next (rusty_range 0 0) []
     \<lparr>fg_generatorFunction = \<lparr>frg_value = 0, frg_end = 0, frg_step = 1\<rparr>, fg_done = True\<rparr>"
  by (simp add: range_next_def rusty_range_def FiniteGeneratorIter_next_def
      FiniteGeneratorIter_new_def FiniteRangeGenerator_call_def)

theorem cycle_repeats_witness:
  "yields range_next (rusty_range 0 3) [0, 1, 2]
     \<lparr>fg_generatorFunction = \<lparr>frg_value = 3, frg_end = 3, frg_step = 1\<rparr>, fg_done = True\<rparr>
   \<and> [0, 1, 2 :: int] \<noteq> []
   \<and> (\<exists>it'. pull_n (CycleIter_next range_next) (Suc 4) None (CycleIter_new (rusty_range 0 3)) =
                Some (Some 1, it'))
   \<and> sticky range_next
   \<and> yields range_next (rusty_range 0 0) []
     \<lparr>fg_generatorFunction = \<lparr>frg_value = 0, frg_end = 0, frg_step = 1\<rparr>, fg_done = True\<rparr>
   \<and> (\<exists>it'. pull_n (CycleIter_next range_next) (Suc 4) None (CycleIter_new (rusty_range 0 0)) =
                Some (None, it'))"
proof -
  have st: "sticky range_next" unfolding range_next_def by (rule sticky_FiniteGeneratorIter)
  have "[0, 1, 2 :: int] ! (4 mod length [0, 1, 2 :: int]) = 1" by simp
  with cycle_repeats[of range_next "rusty_range 0 3" "[0, 1, 2]" _ 4] range_0_3_yields
  have 1: "\<exists>it'. pull_n (CycleIter_next range_next) (Suc 4) None (CycleIter_new (rusty_range 0 3)) =
                Some (Some 1, it')"
    by auto
  from cycle_repeats[of range_next "rusty_range 0 0" _ _ 4] st range_0_0_yields
  have 2: "\<exists>it'. pull_n (CycleIter_next range_next) (Suc 4) None (CycleIter_new (rusty_range 0 0)) =
                Some (None, it')"
    by blast
  from 1 2 st range_0_3_yields range_0_0_yields show ?thesis by simp
qed

subsection \<open>Steps of the lexicographic comparison\<close>

lemma partial_cmp_by_both_done:
  "nxt a = Some (None, a') \<Longrightarrow> nxtOther b = Some (None, b') \<Longrightarrow>
   partial_cmp_by nxt nxtOther pcf a b = Some (Some 0, a', b')"
  by (subst partial_cmp_by.simps) simp

lemma partial_cmp_by_this_done:
  "nxt a = Some (None, a') \<Longrightarrow> nxtOther b = Some (Some y, b') \<Longrightarrow>
   partial_cmp_by nxt nxtOther pcf a b = Some (Some (- 1), a', b')"
  by (subst partial_cmp_by.simps) simp

lemma partial_cmp_by_other_done:
  "nxt a = Some (Some x, a') \<Longrightarrow> nxtOther b = Some (None, b') \<Longrightarrow>
   partial_cmp_by nxt nxtOther pcf a b = Some (Some 1, a', b')"
  by (subst partial_cmp_by.simps) simp

lemma partial_cmp_by_incomparable:
  "nxt a = Some (Some x, a') \<Longrightarrow> nxtOther b = Some (Some y, b') \<Longrightarrow> pcf x y = None \<Longrightarrow>
   partial_cmp_by nxt nxtOther pcf a b = Some (None, a', b')"
  by (subst partial_cmp_by.simps) simp

lemma partial_cmp_by_differ:
  "nxt a = Some (Some x, a') \<Longrightarrow> nxtOther b = Some (Some y, b') \<Longrightarrow> pcf x y = Some v \<Longrightarrow>
   to_char v \<noteq> 0 \<Longrightarrow>
   partial_cmp_by nxt nxtOther pcf a b = Some (Some (to_char v), a', b')"
  by (subst partial_cmp_by.simps) simp

lemma partial_cmp_by_equal:
  "nxt a = Some (Some x, a') \<Longrightarrow> nxtOther b = Some (Some y, b') \<Longrightarrow> pcf x y = Some v \<Longrightarrow>
   to_char v = 0 \<Longrightarrow>
   partial_cmp_by nxt nxtOther pcf a b = partial_cmp_by nxt nxtOther pcf a' b'"
  by (subst partial_cmp_by.simps) simp

subsection \<open>peekable\<close>

text \<open>When the upstream has an item, the first \<^verbatim>\<open>peek()\<close> pulls and buffers it, and a
  second \<^verbatim>\<open>peek()\<close> returns the buffered item and leaves the whole state, the upstream
  included, as it is.\<close>

lemma peek_twice_with_item:
  assumes "nxt s = Some (Some v, s')"
  shows "PeekableIter_peek nxt (PeekableIter_new s) =
           Some (Some v, \<lparr>pk_iter = s', pk_nextItem = Some (Some v)\<rparr>)
       \<and> PeekableIter_peek nxt \<lparr>pk_iter = s', pk_nextItem = Some (Some v)\<rparr> =
           Some (Some v, \<lparr>pk_iter = s', pk_nextItem = Some (Some v)\<rparr>)"
  using assms by (simp add: PeekableIter_peek_def PeekableIter_new_def)

text \<open>
  Claim C9. Two consecutive \<^verbatim>\<open>peek()\<close> calls are to return the same result without
  touching the upstream a second time. On an exhausted upstream the code does not do that:
  \<^verbatim>\<open>peek()\<close> resets \<^verbatim>\<open>_nextItem\<close> to "unknown" instead of recording "known, no
  value", so the second \<^verbatim>\<open>peek()\<close> calls \<^verbatim>\<open>_iter.next()\<close> again. On the empty
  iterator with a call counter, two peeks make two upstream calls.
\<close>

theorem peek_twice_on_exhausted_upstream:
  "PeekableIter_peek (counted EmptyIter_next) (PeekableIter_new ((), 0)) =
     Some (None :: int option, \<lparr>pk_iter = ((), 1), pk_nextItem = None\<rparr>)
   \<and> PeekableIter_peek (counted EmptyIter_next) \<lparr>pk_iter = ((), 1), pk_nextItem = None\<rparr> =
     Some (None :: int option, \<lparr>pk_iter = ((), 2), pk_nextItem = None\<rparr>)"
  by (simp add: PeekableIter_peek_def PeekableIter_new_def counted_def EmptyIter_next_def)

subsection \<open>Sticky exhaustion\<close>

lemma sticky_onI:
  assumes "\<And>s r s'. I s \<Longrightarrow> nxt s = Some (r, s') \<Longrightarrow> I s'"
    and "\<And>s s'. I s \<Longrightarrow> nxt s = Some (None, s') \<Longrightarrow> \<exists>s''. nxt s' = Some (None, s'')"
  shows "sticky_on I nxt"
  unfolding sticky_on_def using assms by blast

lemma sticky_on_inv: "sticky_on I nxt \<Longrightarrow> I s \<Longrightarrow> nxt s = Some (r, s') \<Longrightarrow> I s'"
  unfolding sticky_on_def by blast

lemma sticky_on_next:
  "sticky_on I nxt \<Longrightarrow> I s \<Longrightarrow> nxt s = Some (None, s') \<Longrightarrow> \<exists>s''. nxt s' = Some (None, s'')"
  unfolding sticky_on_def by blast

lemma sticky_iff_sticky_on: "sticky nxt \<longleftrightarrow> sticky_on (\<lambda>s. True) nxt"
  unfolding sticky_def sticky_on_def by auto

lemma sticky_on_stays_exhausted:
  assumes st: "sticky_on I nxt"
  shows "I s \<Longrightarrow> nxt s = Some (None, s') \<Longrightarrow> stays_exhausted nxt s'"
proof -
  have "\<exists>t t'. advance_n nxt k s' = Some t \<and> nxt t = Some (None, t')"
    if "I s" "nxt s = Some (None, s')" for k s s'
    using that
  proof (induction k arbitrary: s s')
    case 0
    from sticky_on_next[OF st 0] show ?case by simp
  next
    case (Suc k)
    from sticky_on_next[OF st Suc.prems] obtain s'' where s'': "nxt s' = Some (None, s'')" by blast
    from sticky_on_inv[OF st Suc.prems] have "I s'" .
    from Suc.IH[OF this s''] s'' show ?case by simp
  qed
  then show "I s \<Longrightarrow> nxt s = Some (None, s') \<Longrightarrow> stays_exhausted nxt s'"
    unfolding stays_exhausted_def by blast
qed

text \<open>Leaf producers\<close>

lemma sticky_CppIteratorWrapper: "sticky_on (\<lambda>s. True) CppIteratorWrapper_next"
proof (rule sticky_onI)
  fix s s' :: "'a list"
  assume "CppIteratorWrapper_next s = Some (None, s')"
  then have "s' = []" by (cases s) (simp_all add: CppIteratorWrapper_next_Nil CppIteratorWrapper_next_Cons)
  then show "\<exists>s''. CppIteratorWrapper_next s' = Some (None, s'')"
    by (simp add: CppIteratorWrapper_next_Nil)
qed simp

lemma sticky_GeneratorIter: "sticky_on (\<lambda>s. True) (GeneratorIter_next g)"
proof (rule sticky_onI)
  fix s s'
  assume "GeneratorIter_next g s = Some (None, s')"
  then have False by (simp add: GeneratorIter_next_def split: prod.splits)
  then show "\<exists>s''. GeneratorIter_next g s' = Some (None, s'')" ..
qed simp

lemma sticky_on_FiniteGeneratorIter: "sticky_on (\<lambda>s. True) (FiniteGeneratorIter_next g)"
  using sticky_FiniteGeneratorIter[of g] by (simp add: sticky_iff_sticky_on)

lemma sticky_EmptyIter: "sticky_on (\<lambda>s. True) EmptyIter_next"
  by (rule sticky_onI) (simp_all add: EmptyIter_next_def)

text \<open>Adaptors without a loop\<close>

lemma sticky_MapIter:
  assumes st: "sticky_on I nxt"
  shows "sticky_on I (MapIter_next nxt f)"
proof (rule sticky_onI)
  fix s r s' assume I: "I s" and n: "MapIter_next nxt f s = Some (r, s')"
  from n obtain r0 where "nxt s = Some (r0, s')"
    by (auto simp: MapIter_next_def split: option.splits)
  from sticky_on_inv[OF st I this] show "I s'" .
next
  fix s s' assume I: "I s" and n: "MapIter_next nxt f s = Some (None, s')"
  from n have "nxt s = Some (None, s')"
    by (auto simp: MapIter_next_def split: option.splits)
  from sticky_on_next[OF st I this] obtain s'' where "nxt s' = Some (None, s'')" by blast
  then show "\<exists>s''. MapIter_next nxt f s' = Some (None, s'')"
    by (simp add: MapIter_next_def)
qed

lemma sticky_InspectIter:
  assumes st: "sticky_on I nxt"
  shows "sticky_on (\<lambda>it. I (fst it)) (InspectIter_next nxt cb)"
proof (rule sticky_onI)
  fix it r it' assume I: "I (fst it)" and n: "InspectIter_next nxt cb it = Some (r, it')"
  from n obtain r0 where "nxt (fst it) = Some (r0, fst it')"
    by (cases it) (auto simp: InspectIter_next_def split: option.splits)
  from sticky_on_inv[OF st I this] show "I (fst it')" .
next
  fix it it' assume I: "I (fst it)" and n: "InspectIter_next nxt cb it = Some (None, it')"
  from n have "nxt (fst it) = Some (None, fst it')"
    by (cases it) (auto simp: InspectIter_next_def split: option.splits)
  from sticky_on_next[OF st I this] obtain s'' where "nxt (fst it') = Some (None, s'')" by blast
  then show "\<exists>s''. InspectIter_next nxt cb it' = Some (None, s'')"
    by (cases it') (simp add: InspectIter_next_def)
qed

lemma sticky_ZipIter: "sticky_on (\<lambda>it. True) (ZipIter_next nxt nxtZipped)"
proof (rule sticky_onI)
  fix it it'
  assume "ZipIter_next nxt nxtZipped it = Some (None, it')"
  then have "z_anyDone it'"
    by (auto simp: ZipIter_next_def split: if_splits option.splits)
  then show "\<exists>s''. ZipIter_next nxt nxtZipped it' = Some (None, s'')"
    by (simp add: ZipIter_next_def)
qed simp

lemma sticky_TakeWhileIter: "sticky_on (\<lambda>it. True) (TakeWhileIter_next nxt pred)"
proof (rule sticky_onI)
  fix it it'
  assume "TakeWhileIter_next nxt pred it = Some (None, it')"
  then have "tw_done it'"
    by (auto simp: TakeWhileIter_next_def Let_def split: if_splits option.splits prod.splits)
  then show "\<exists>s''. TakeWhileIter_next nxt pred it' = Some (None, s'')"
    by (simp add: TakeWhileIter_next_def)
qed simp

lemma sticky_IntersperseWithIter: "sticky_on (\<lambda>it. True) (IntersperseWithIter_next nxt getter)"
proof (rule sticky_onI)
  fix it it'
  assume "IntersperseWithIter_next nxt getter it = Some (None, it')"
  then have "\<not> is_separatorIsNext it' \<and> is_nextResult it' = None"
    by (auto simp: IntersperseWithIter_next_def Let_def split: if_splits option.splits prod.splits)
  then show "\<exists>s''. IntersperseWithIter_next nxt getter it' = Some (None, s'')"
    by (simp add: IntersperseWithIter_next_def)
qed simp

lemma sticky_ChainIter:
  assumes st: "sticky_on J nxtChained"
  shows "sticky_on (\<lambda>it. J (ch_chainedIter it)) (ChainIter_next nxt nxtChained)"
proof (rule sticky_onI)
  fix it r it' assume J: "J (ch_chainedIter it)" and n: "ChainIter_next nxt nxtChained it = Some (r, it')"
  from n have "ch_chainedIter it' = ch_chainedIter it
      \<or> (\<exists>r0. nxtChained (ch_chainedIter it) = Some (r0, ch_chainedIter it'))"
    by (auto simp: ChainIter_next_def split: if_splits option.splits)
  with J sticky_on_inv[OF st J] show "J (ch_chainedIter it')" by auto
next
  fix it it' assume J: "J (ch_chainedIter it)" and n: "ChainIter_next nxt nxtChained it = Some (None, it')"
  from n have "ch_firstDone it' \<and> nxtChained (ch_chainedIter it) = Some (None, ch_chainedIter it')"
    by (auto simp: ChainIter_next_def split: if_splits option.splits)
  with sticky_on_next[OF st J] obtain t where
    "ch_firstDone it'" "nxtChained (ch_chainedIter it') = Some (None, t)" by blast
  then show "\<exists>s''. ChainIter_next nxt nxtChained it' = Some (None, s'')"
    by (simp add: ChainIter_next_def)
qed

lemma sticky_PeekableIter:
  assumes st: "sticky_on I nxt"
  shows "sticky_on (\<lambda>it. I (pk_iter it) \<and> pk_nextItem it \<noteq> Some None) (PeekableIter_next nxt)"
proof (rule sticky_onI)
  fix it r it'
  assume I: "I (pk_iter it) \<and> pk_nextItem it \<noteq> Some None"
    and n: "PeekableIter_next nxt it = Some (r, it')"
  from n have "pk_nextItem it' = None
      \<and> (pk_iter it' = pk_iter it \<or> (\<exists>r0. nxt (pk_iter it) = Some (r0, pk_iter it')))"
    by (auto simp: PeekableIter_next_def split: option.splits)
  with I sticky_on_inv[OF st] show "I (pk_iter it') \<and> pk_nextItem it' \<noteq> Some None" by auto
next
  fix it it'
  assume I: "I (pk_iter it) \<and> pk_nextItem it \<noteq> Some None"
    and n: "PeekableIter_next nxt it = Some (None, it')"
  from n I have "pk_nextItem it' = None \<and> nxt (pk_iter it) = Some (None, pk_iter it')"
    by (auto simp: PeekableIter_next_def split: option.splits)
  with sticky_on_next[OF st] I obtain t where
    "pk_nextItem it' = None" "nxt (pk_iter it') = Some (None, t)" by blast
  then show "\<exists>s''. PeekableIter_next nxt it' = Some (None, s'')"
    by (simp add: PeekableIter_next_def)
qed

lemma sticky_CycleIter:
  assumes st: "sticky_on I nxt"
  shows "sticky_on (\<lambda>it. I (cy_iter it) \<and> I (cy_originalIter it)) (CycleIter_next nxt)"
proof (rule sticky_onI)
  fix it r it'
  assume I: "I (cy_iter it) \<and> I (cy_originalIter it)"
    and n: "CycleIter_next nxt it = Some (r, it')"
  from n have "cy_originalIter it' = cy_originalIter it
      \<and> ((\<exists>r0. nxt (cy_iter it) = Some (r0, cy_iter it'))
         \<or> (\<exists>r0. nxt (cy_originalIter it) = Some (r0, cy_iter it')))"
    by (auto simp: CycleIter_next_def split: option.splits if_splits)
  with I sticky_on_inv[OF st] show "I (cy_iter it') \<and> I (cy_originalIter it')" by auto
next
  fix it it'
  assume I: "I (cy_iter it) \<and> I (cy_originalIter it)"
    and n: "CycleIter_next nxt it = Some (None, it')"
  from n consider
    (empty) "cy_iterIsEmpty it'" "nxt (cy_iter it) = Some (None, cy_iter it')"
  | (restart) "\<not> cy_iterIsEmpty it'" "cy_originalIter it' = cy_originalIter it"
      "nxt (cy_originalIter it) = Some (None, cy_iter it')"
    by (auto simp: CycleIter_next_def split: option.splits if_splits)
  then show "\<exists>s''. CycleIter_next nxt it' = Some (None, s'')"
  proof cases
    case empty
    from sticky_on_next[OF st _ empty(2)] I obtain t where "nxt (cy_iter it') = Some (None, t)"
      by blast
    with empty(1) show ?thesis by (simp add: CycleIter_next_def)
  next
    case restart
    from sticky_on_next[OF st _ restart(3)] I obtain t where "nxt (cy_iter it') = Some (None, t)"
      by blast
    with restart show ?thesis by (simp add: CycleIter_next_def)
  qed
qed

text \<open>Adaptors with a loop\<close>

lemma pull_n_inv:
  assumes st: "sticky_on I nxt"
  shows "I s \<Longrightarrow> pull_n nxt k l s = Some (r, s') \<Longrightarrow> I s'"
proof (induction k arbitrary: s l)
  case 0
  then show ?case by simp
next
  case (Suc k)
  from Suc.prems(2) obtain r1 s1 where
    s1: "nxt s = Some (r1, s1)" "pull_n nxt k r1 s1 = Some (r, s')"
    by (auto split: option.splits)
  from sticky_on_inv[OF st Suc.prems(1) s1(1)] have "I s1" .
  from Suc.IH[OF this s1(2)] show ?case .
qed

lemma pull_n_last_None:
  assumes st: "sticky_on I nxt"
  shows "I s \<Longrightarrow> pull_n nxt (Suc k) l s = Some (None, s') \<Longrightarrow>
    \<exists>s0. I s0 \<and> nxt s0 = Some (None, s')"
proof (induction k arbitrary: s l)
  case 0
  from 0(2) have "nxt s = Some (None, s')" by (auto split: option.splits)
  with 0(1) show ?case by blast
next
  case (Suc k)
  from Suc.prems(2) obtain r1 s1 where
    s1: "nxt s = Some (r1, s1)" "pull_n nxt (Suc k) r1 s1 = Some (None, s')"
    by (subst (asm) pull_n.simps) (auto split: option.splits)
  from sticky_on_inv[OF st Suc.prems(1) s1(1)] have "I s1" .
  from Suc.IH[OF this s1(2)] show ?case .
qed

lemma pull_n_after_None:
  assumes st: "sticky_on I nxt"
  shows "I s0 \<Longrightarrow> nxt s0 = Some (None, s) \<Longrightarrow> \<exists>t. pull_n nxt (Suc k) l s = Some (None, t)"
proof (induction k arbitrary: s0 s l)
  case 0
  from sticky_on_next[OF st 0] show ?case by auto
next
  case (Suc k)
  from sticky_on_next[OF st Suc.prems] obtain s1 where s1: "nxt s = Some (None, s1)" by blast
  from sticky_on_inv[OF st Suc.prems] have "I s" .
  from Suc.IH[OF this s1, of None] obtain t where "pull_n nxt (Suc k) None s1 = Some (None, t)"
    by blast
  with s1 show ?case by (subst pull_n.simps) simp
qed

lemma StepByIter_next_cases:
  "StepByIter_next nxt it =
     (if sb_invalid it then Some (None, it)
      else if sb_first it then
        (case nxt (sb_iter it) of
           None \<Rightarrow> None
         | Some (r, s') \<Rightarrow> Some (r, it\<lparr>sb_first := False, sb_iter := s'\<rparr>))
      else
        (case pull_n nxt (nat (sb_stepSize it)) None (sb_iter it) of
           None \<Rightarrow> None
         | Some (l, s') \<Rightarrow> Some (l, it\<lparr>sb_iter := s'\<rparr>)))"
proof -
  have "nat (sb_stepSize it - 0) = nat (sb_stepSize it)" by simp
  from StepByIter_loop_pull_n[OF this]
  have "StepByIter_loop nxt 0 (sb_stepSize it) None (sb_iter it) =
      pull_n nxt (nat (sb_stepSize it)) None (sb_iter it)" .
  then show ?thesis by (simp add: StepByIter_next_def)
qed

lemma sticky_StepByIter:
  assumes st: "sticky_on I nxt"
  shows "sticky_on (\<lambda>it. I (sb_iter it)) (StepByIter_next nxt)"
proof (rule sticky_onI)
  fix it r it'
  assume I: "I (sb_iter it)" and n: "StepByIter_next nxt it = Some (r, it')"
  from n consider "sb_iter it' = sb_iter it"
    | r0 where "nxt (sb_iter it) = Some (r0, sb_iter it')"
    | l where "pull_n nxt (nat (sb_stepSize it)) None (sb_iter it) = Some (l, sb_iter it')"
    unfolding StepByIter_next_cases by (auto split: if_splits option.splits)
  then show "I (sb_iter it')"
  proof cases
    case 1
    with I show ?thesis by simp
  next
    case 2
    from sticky_on_inv[OF st I this] show ?thesis .
  next
    case 3
    from pull_n_inv[OF st I this] show ?thesis .
  qed
next
  fix it it'
  assume I: "I (sb_iter it)" and n: "StepByIter_next nxt it = Some (None, it')"
  show "\<exists>s''. StepByIter_next nxt it' = Some (None, s'')"
  proof (cases "sb_invalid it")
    case True
    with n have "it' = it" by (simp add: StepByIter_next_cases)
    with True show ?thesis by (simp add: StepByIter_next_cases)
  next
    case False
    have rest: "\<exists>s''. StepByIter_next nxt it' = Some (None, s'')"
      if f: "\<not> sb_invalid it'" "\<not> sb_first it'"
        and d: "nat (sb_stepSize it') = 0 \<or> (\<exists>s0. I s0 \<and> nxt s0 = Some (None, sb_iter it'))"
    proof (cases "nat (sb_stepSize it')")
      case 0
      with f show ?thesis by (simp add: StepByIter_next_cases)
    next
      case (Suc k)
      with d obtain s0 where "I s0" "nxt s0 = Some (None, sb_iter it')" by auto
      from pull_n_after_None[OF st this, of k None] obtain t where
        "pull_n nxt (Suc k) None (sb_iter it') = Some (None, t)" by blast
      with f Suc show ?thesis by (simp add: StepByIter_next_cases)
    qed
    show ?thesis
    proof (cases "sb_first it")
      case True
      with False n have "nxt (sb_iter it) = Some (None, sb_iter it')"
        and "\<not> sb_invalid it'" "\<not> sb_first it'"
        by (auto simp: StepByIter_next_cases split: option.splits)
      with I rest show ?thesis by blast
    next
      case nf: False
      with False n have p: "pull_n nxt (nat (sb_stepSize it)) None (sb_iter it) = Some (None, sb_iter it')"
        and f: "\<not> sb_invalid it'" "\<not> sb_first it'" and sz: "sb_stepSize it' = sb_stepSize it"
        by (auto simp: StepByIter_next_cases split: option.splits)
      have "nat (sb_stepSize it') = 0 \<or> (\<exists>s0. I s0 \<and> nxt s0 = Some (None, sb_iter it'))"
      proof (cases "nat (sb_stepSize it)")
        case 0
        with sz show ?thesis by simp
      next
        case (Suc k)
        from pull_n_last_None[OF st I p[unfolded Suc]] show ?thesis by blast
      qed
      with rest f show ?thesis by blast
    qed
  qed
qed

lemma FilterIter_next_result:
  assumes "FilterIter_next nxt f s = Some y" and "sticky_on I nxt" and "I s"
  shows "I (snd y) \<and> (fst y = None \<longrightarrow> (\<exists>s0. I s0 \<and> nxt s0 = Some (None, snd y)))"
  using assms
proof (induct rule: FilterIter_next.raw_induct[rotated 1, consumes 1, case_names step])
  case (step FilterIter_next nxt f s y)
  show ?case
  proof (cases "nxt s")
    case None
    with step(2) show ?thesis by simp
  next
    case (Some p)
    obtain r s' where p: "p = (r, s')" by (cases p)
    from sticky_on_inv[OF step(3) step(4) Some[unfolded p]] have I': "I s'" .
    show ?thesis
    proof (cases r)
      case None
      with step(2) Some p have "y = (None, s')" by simp
      with Some p None I' step(4) show ?thesis by auto
    next
      case (Some v)
      show ?thesis
      proof (cases "f v")
        case True
        with step(2) \<open>nxt s = Some p\<close> p Some have "y = (Some v, s')" by simp
        with I' show ?thesis by simp
      next
        case False
        with step(2) \<open>nxt s = Some p\<close> p Some have "FilterIter_next nxt f s' = Some y" by simp
        from step(1)[OF this step(3) I'] show ?thesis .
      qed
    qed
  qed
qed

lemma sticky_FilterIter:
  assumes st: "sticky_on I nxt"
  shows "sticky_on I (FilterIter_next nxt f)"
proof (rule sticky_onI)
  fix s r s' assume "I s" "FilterIter_next nxt f s = Some (r, s')"
  from FilterIter_next_result[OF this(2) st this(1)] show "I s'" by simp
next
  fix s s' assume "I s" "FilterIter_next nxt f s = Some (None, s')"
  from FilterIter_next_result[OF this(2) st this(1)] obtain s0 where
    "I s0" "nxt s0 = Some (None, s')" by auto
  from sticky_on_next[OF st this] obtain s'' where "nxt s' = Some (None, s'')" by blast
  then have "FilterIter_next nxt f s' = Some (None, s'')"
    by (subst FilterIter_next.simps) simp
  then show "\<exists>s''. FilterIter_next nxt f s' = Some (None, s'')" ..
qed

lemma FilterMapIter_next_result:
  assumes "FilterMapIter_next nxt f s = Some y" and "sticky_on I nxt" and "I s"
  shows "I (snd y) \<and> (fst y = None \<longrightarrow> (\<exists>s0. I s0 \<and> nxt s0 = Some (None, snd y)))"
  using assms
proof (induct rule: FilterMapIter_next.raw_induct[rotated 1, consumes 1, case_names step])
  case (step FilterMapIter_next nxt f s y)
  show ?case
  proof (cases "nxt s")
    case None
    with step(2) show ?thesis by simp
  next
    case (Some p)
    obtain r s' where p: "p = (r, s')" by (cases p)
    from sticky_on_inv[OF step(3) step(4) Some[unfolded p]] have I': "I s'" .
    show ?thesis
    proof (cases r)
      case None
      with step(2) Some p have "y = (None, s')" by simp
      with Some p None I' step(4) show ?thesis by auto
    next
      case (Some v)
      show ?thesis
      proof (cases "f v")
        case (Some w)
        with step(2) \<open>nxt s = Some p\<close> p \<open>r = Some v\<close> have "y = (Some w, s')" by simp
        with I' show ?thesis by simp
      next
        case None
        with step(2) \<open>nxt s = Some p\<close> p Some have "FilterMapIter_next nxt f s' = Some y" by simp
        from step(1)[OF this step(3) I'] show ?thesis .
      qed
    qed
  qed
qed

lemma sticky_FilterMapIter:
  assumes st: "sticky_on I nxt"
  shows "sticky_on I (FilterMapIter_next nxt f)"
proof (rule sticky_onI)
  fix s r s' assume "I s" "FilterMapIter_next nxt f s = Some (r, s')"
  from FilterMapIter_next_result[OF this(2) st this(1)] show "I s'" by simp
next
  fix s s' assume "I s" "FilterMapIter_next nxt f s = Some (None, s')"
  from FilterMapIter_next_result[OF this(2) st this(1)] obtain s0 where
    "I s0" "nxt s0 = Some (None, s')" by auto
  from sticky_on_next[OF st this] obtain s'' where "nxt s' = Some (None, s'')" by blast
  then have "FilterMapIter_next nxt f s' = Some (None, s'')"
    by (subst FilterMapIter_next.simps) simp
  then show "\<exists>s''. FilterMapIter_next nxt f s' = Some (None, s'')" ..
qed

lemma SkipWhileIter_loop_result:
  assumes "SkipWhileIter_loop nxt pred s p = Some y" and "sticky_on I nxt" and "I s"
  shows "I (fst (snd y))
       \<and> (fst y = None \<longrightarrow> (\<exists>s0. I s0 \<and> nxt s0 = Some (None, fst (snd y))))"
  using assms
proof (induct rule: SkipWhileIter_loop.raw_induct[rotated 1, consumes 1, case_names step])
  case (step SkipWhileIter_loop nxt pred s p y)
  show ?case
  proof (cases "nxt s")
    case None
    with step(2) show ?thesis by simp
  next
    case (Some q)
    obtain r s' where q: "q = (r, s')" by (cases q)
    from sticky_on_inv[OF step(3) step(4) Some[unfolded q]] have I': "I s'" .
    show ?thesis
    proof (cases r)
      case None
      with step(2) Some q have "y = (None, s', p)" by simp
      with Some q None I' step(4) show ?thesis by auto
    next
      case (Some v)
      obtain b p' where b: "pred p v = (b, p')" by (cases "pred p v")
      show ?thesis
      proof (cases b)
        case False
        with step(2) \<open>nxt s = Some q\<close> q Some b have "y = (Some v, s', p')" by simp
        with I' show ?thesis by simp
      next
        case True
        with step(2) \<open>nxt s = Some q\<close> q Some b
        have "SkipWhileIter_loop nxt pred s' p' = Some y" by simp
        from step(1)[OF this step(3) I'] show ?thesis .
      qed
    qed
  qed
qed

lemma sticky_SkipWhileIter:
  assumes st: "sticky_on I nxt"
  shows "sticky_on (\<lambda>it. I (sw_iter it)) (SkipWhileIter_next nxt pred)"
proof (rule sticky_onI)
  fix it r it'
  assume I: "I (sw_iter it)" and n: "SkipWhileIter_next nxt pred it = Some (r, it')"
  from n consider p' where
      "SkipWhileIter_loop nxt pred (sw_iter it) (sw_predicate it) = Some (r, sw_iter it', p')"
    | "nxt (sw_iter it) = Some (r, sw_iter it')"
    by (auto simp: SkipWhileIter_next_def split: if_splits option.splits)
  then show "I (sw_iter it')"
  proof cases
    case 1
    from SkipWhileIter_loop_result[OF this st I] show ?thesis by simp
  next
    case 2
    from sticky_on_inv[OF st I this] show ?thesis .
  qed
next
  fix it it'
  assume I: "I (sw_iter it)" and n: "SkipWhileIter_next nxt pred it = Some (None, it')"
  from n have d: "sw_done it'"
    by (auto simp: SkipWhileIter_next_def split: if_splits option.splits)
  from n consider p' where
      "SkipWhileIter_loop nxt pred (sw_iter it) (sw_predicate it) = Some (None, sw_iter it', p')"
    | "nxt (sw_iter it) = Some (None, sw_iter it')"
    by (auto simp: SkipWhileIter_next_def split: if_splits option.splits)
  then have "\<exists>s0. I s0 \<and> nxt s0 = Some (None, sw_iter it')"
  proof cases
    case 1
    from SkipWhileIter_loop_result[OF this st I] show ?thesis by simp
  next
    case 2
    with I show ?thesis by blast
  qed
  then obtain s0 where "I s0" "nxt s0 = Some (None, sw_iter it')" by blast
  from sticky_on_next[OF st this] obtain t where "nxt (sw_iter it') = Some (None, t)" by blast
  with d show "\<exists>s''. SkipWhileIter_next nxt pred it' = Some (None, s'')"
    by (simp add: SkipWhileIter_next_def)
qed

lemma FlattenIter_loop_result:
  assumes "FlattenIter_loop nxt nxtInner it = Some y"
  shows "fst y = None \<longrightarrow> fl_innerIter (snd y) = None"
  using assms
proof (induct rule: FlattenIter_loop.raw_induct[rotated 1, consumes 1, case_names step])
  case (step FlattenIter_loop nxt nxtInner it y)
  show ?case
  proof (cases "fl_innerIter it")
    case None
    with step(2) show ?thesis by simp
  next
    case (Some inner)
    show ?thesis
    proof (cases "nxtInner inner")
      case None
      with step(2) Some show ?thesis by simp
    next
      case i: (Some q)
      obtain r inner' where q: "q = (r, inner')" by (cases q)
      show ?thesis
      proof (cases r)
        case (Some v)
        with step(2) \<open>fl_innerIter it = Some inner\<close> i q show ?thesis by auto
      next
        case None
        show ?thesis
        proof (cases "FlattenIter_advance nxt (it\<lparr>fl_innerIter := Some inner'\<rparr>)")
          case None
          with step(2) \<open>fl_innerIter it = Some inner\<close> i q \<open>r = None\<close> show ?thesis by simp
        next
          case a: (Some w)
          obtain ok it' where w: "w = (ok, it')" by (cases w)
          show ?thesis
          proof (cases ok)
            case True
            with step(2) \<open>fl_innerIter it = Some inner\<close> i q \<open>r = None\<close> a w
            have "FlattenIter_loop nxt nxtInner it' = Some y" by simp
            from step(1)[OF this] show ?thesis .
          next
            case False
            with step(2) \<open>fl_innerIter it = Some inner\<close> i q \<open>r = None\<close> a w
            have y: "y = (None, it')" by simp
            from a w False have "fl_innerIter it' = None"
              by (auto simp: FlattenIter_advance_def split: option.splits)
            with y show ?thesis by simp
          qed
        qed
      qed
    qed
  qed
qed

lemma sticky_FlattenIter: "sticky_on (\<lambda>it. True) (FlattenIter_next nxt nxtInner)"
proof (rule sticky_onI)
  fix it it'
  assume n: "FlattenIter_next nxt nxtInner it = Some (None, it')"
  have "fl_innerIter it' = None"
  proof (cases "fl_innerIter it = None")
    case True
    with n show ?thesis by (simp add: FlattenIter_next_def)
  next
    case False
    with n have "FlattenIter_loop nxt nxtInner it = Some (None, it')"
      by (simp add: FlattenIter_next_def)
    from FlattenIter_loop_result[OF this] show ?thesis by simp
  qed
  then show "\<exists>s''. FlattenIter_next nxt nxtInner it' = Some (None, s'')"
    by (simp add: FlattenIter_next_def)
qed simp

text \<open>
  Claim C1. Exhaustion is permanent. Every leaf producer is sticky in every state; every
  adaptor over sticky upstreams is sticky, relative to the invariant that its upstream
  states are states of the sticky upstream (and, for \<^verbatim>\<open>peekable\<close>, that the lookahead
  buffer does not hold "known, no value", which no call stores); the constructors establish
  these invariants. For a sticky sequence, once an advancement call has signalled exhaustion,
  every later advancement call returns and signals exhaustion again.
\<close>

theorem exhaustion_is_permanent:
  "sticky_on (\<lambda>s. True) CppIteratorWrapper_next
   \<and> sticky_on (\<lambda>s. True) (GeneratorIter_next generatorFunction)
   \<and> sticky_on (\<lambda>s. True) (FiniteGeneratorIter_next finiteGeneratorFunction)
   \<and> sticky_on (\<lambda>s. True) EmptyIter_next
   \<and> (sticky_on I nxt \<longrightarrow> sticky_on (\<lambda>it. I (sb_iter it)) (StepByIter_next nxt))
   \<and> (sticky_on J nxtChained \<longrightarrow>
        sticky_on (\<lambda>it. J (ch_chainedIter it)) (ChainIter_next nxt nxtChained))
   \<and> sticky_on (\<lambda>it. True) (ZipIter_next nxt nxtZipped)
   \<and> sticky_on (\<lambda>it. True) (enumerate_next nxt)
   \<and> sticky_on (\<lambda>it. True) (IntersperseWithIter_next nxt getter)
   \<and> sticky_on (\<lambda>it. True) (intersperse_next nxt)
   \<and> (sticky_on I nxt \<longrightarrow> sticky_on I (MapIter_next nxt mapFunction))
   \<and> (sticky_on I nxt \<longrightarrow> sticky_on I (FilterIter_next nxt filterFunction))
   \<and> (sticky_on I nxt \<longrightarrow> sticky_on I (FilterMapIter_next nxt filterMapFunction))
   \<and> (sticky_on I nxt \<longrightarrow> sticky_on (\<lambda>it. I (fst it)) (InspectIter_next nxt inspectCallback))
   \<and> (sticky_on I nxt \<longrightarrow>
        sticky_on (\<lambda>it. I (pk_iter it) \<and> pk_nextItem it \<noteq> Some None) (PeekableIter_next nxt))
   \<and> (sticky_on I nxt \<longrightarrow> sticky_on (\<lambda>it. I (sw_iter it)) (SkipWhileIter_next nxt pred))
   \<and> (sticky_on I nxt \<longrightarrow> sticky_on (\<lambda>it. I (sw_iter it)) (skip_next nxt))
   \<and> sticky_on (\<lambda>it. True) (TakeWhileIter_next nxt pred)
   \<and> sticky_on (\<lambda>it. True) (take_next nxt)
   \<and> sticky_on (\<lambda>it. True) (FlattenIter_next nxtOuter nxtInner)
   \<and> (sticky_on I nxt \<longrightarrow>
        sticky_on (\<lambda>it. I (cy_iter it) \<and> I (cy_originalIter it)) (CycleIter_next nxt))
   \<and> (I s \<longrightarrow>
        I (sb_iter (StepByIter_new s stepSize))
        \<and> I (fst (InspectIter_new s observed))
        \<and> I (pk_iter (PeekableIter_new s :: ('s, 'a) PeekableIter))
        \<and> pk_nextItem (PeekableIter_new s :: ('s, 'a) PeekableIter) \<noteq> Some None
        \<and> I (sw_iter (SkipWhileIter_new s predicate))
        \<and> I (cy_iter (CycleIter_new s)) \<and> I (cy_originalIter (CycleIter_new s)))
   \<and> (sticky_on I nxt \<and> I s \<and> nxt s = Some (None, s') \<longrightarrow> stays_exhausted nxt s')"
proof (intro conjI impI)
  show "sticky_on (\<lambda>s. True) (FiniteGeneratorIter_next finiteGeneratorFunction)"
    by (rule sticky_on_FiniteGeneratorIter)
  show "sticky_on (\<lambda>it. True) (enumerate_next nxt)"
    unfolding enumerate_next_def by (rule sticky_ZipIter)
  show "sticky_on (\<lambda>it. True) (intersperse_next nxt)"
    unfolding intersperse_next_def by (rule sticky_IntersperseWithIter)
  show "sticky_on (\<lambda>it. True) (take_next nxt)"
    unfolding take_next_def by (rule sticky_TakeWhileIter)
  show "sticky_on I nxt \<Longrightarrow> sticky_on (\<lambda>it. I (sw_iter it)) (skip_next nxt)"
    unfolding skip_next_def by (rule sticky_SkipWhileIter)
  show "sticky_on I nxt \<and> I s \<and> nxt s = Some (None, s') \<Longrightarrow> stays_exhausted nxt s'"
    using sticky_on_stays_exhausted[of I nxt s s'] by blast
qed (simp_all add: sticky_CppIteratorWrapper sticky_GeneratorIter sticky_EmptyIter
      sticky_StepByIter sticky_ChainIter sticky_ZipIter sticky_IntersperseWithIter
      sticky_MapIter sticky_FilterIter sticky_FilterMapIter sticky_InspectIter
      sticky_PeekableIter sticky_SkipWhileIter sticky_TakeWhileIter sticky_FlattenIter
      sticky_CycleIter StepByIter_new_def InspectIter_new_def PeekableIter_new_def
      SkipWhileIter_new_def CycleIter_new_def)

theorem exhaustion_is_permanent_witness:
  "sticky_on (\<lambda>s. True) range_next
   \<and> range_next (rusty_range 0 0) =
       Some (None, \<lparr>fg_generatorFunction = \<lparr>frg_value = 0, frg_end = 0, frg_step = 1\<rparr>, fg_done = True\<rparr>)
   \<and> stays_exhausted range_next
       \<lparr>fg_generatorFunction = \<lparr>frg_value = 0, frg_end = 0, frg_step = 1\<rparr>, fg_done = True\<rparr>
   \<and> sticky_on (\<lambda>it. True) (StepByIter_next range_next)
   \<and> StepByIter_next range_next (StepByIter_new (rusty_range 0 0) 2) =
       Some (None, \<lparr>sb_iter = \<lparr>fg_generatorFunction = \<lparr>frg_value = 0, frg_end = 0, frg_step = 1\<rparr>,
                                fg_done = True\<rparr>,
                    sb_stepSize = 2, sb_first = False, sb_invalid = False\<rparr>)
   \<and> stays_exhausted (StepByIter_next range_next)
       \<lparr>sb_iter = \<lparr>fg_generatorFunction = \<lparr>frg_value = 0, frg_end = 0, frg_step = 1\<rparr>, fg_done = True\<rparr>,
        sb_stepSize = 2, sb_first = False, sb_invalid = False\<rparr>"
proof -
  let ?t = "\<lparr>fg_generatorFunction = \<lparr>frg_value = 0, frg_end = 0, frg_step = 1\<rparr>, fg_done = True\<rparr>"
  let ?u = "\<lparr>sb_iter = ?t, sb_stepSize = 2, sb_first = False, sb_invalid = False\<rparr>"
  have r: "range_next (rusty_range 0 0) = Some (None, ?t)"
    using range_0_0_yields by simp
  have st: "sticky_on (\<lambda>s. True) range_next"
    unfolding range_next_def
    by (rule exhaustion_is_permanent[THEN conjunct2, THEN conjunct2, THEN conjunct1])
  have e: "stays_exhausted range_next ?t"
    by (rule exhaustion_is_permanent[THEN conjunct2, THEN conjunct2, THEN conjunct2, THEN conjunct2, THEN conjunct2, THEN conjunct2, THEN conjunct2, THEN conjunct2, THEN conjunct2, THEN conjunct2, THEN conjunct2, THEN conjunct2, THEN conjunct2, THEN conjunct2, THEN conjunct2, THEN conjunct2, THEN conjunct2, THEN conjunct2, THEN conjunct2, THEN conjunct2, THEN conjunct2, THEN conjunct2, rule_format, of "\<lambda>s. True" range_next "rusty_range 0 0"])
       (simp add: st r)
  have st2: "sticky_on (\<lambda>it. True) (StepByIter_next range_next)"
    by (rule exhaustion_is_permanent[THEN conjunct2, THEN conjunct2, THEN conjunct2, THEN conjunct2, THEN conjunct1, rule_format, of "\<lambda>s. True" range_next, OF st])
  have r2: "StepByIter_next range_next (StepByIter_new (rusty_range 0 0) 2) = Some (None, ?u)"
    using r by (simp add: StepByIter_next_def StepByIter_new_def)
  have e2: "stays_exhausted (StepByIter_next range_next) ?u"
    by (rule exhaustion_is_permanent[THEN conjunct2, THEN conjunct2, THEN conjunct2, THEN conjunct2, THEN conjunct2, THEN conjunct2, THEN conjunct2, THEN conjunct2, THEN conjunct2, THEN conjunct2, THEN conjunct2, THEN conjunct2, THEN conjunct2, THEN conjunct2, THEN conjunct2, THEN conjunct2, THEN conjunct2, THEN conjunct2, THEN conjunct2, THEN conjunct2, THEN conjunct2, THEN conjunct2, rule_format, of "\<lambda>it. True" "StepByIter_next range_next"
          "StepByIter_new (rusty_range 0 0) 2"])
       (simp add: st2 r2)
  from st r e st2 r2 e2 show ?thesis by (intro conjI)
qed

subsection \<open>The first calls of a sequence\<close>

lemma pulls_Suc:
  "pulls nxt (Suc k) s = Some (rs, t) \<longleftrightarrow>
     (\<exists>r s' rs'. nxt s = Some (r, s') \<and> pulls nxt k s' = Some (rs', t) \<and> rs = r # rs')"
proof (cases "nxt s")
  case None
  then show ?thesis by simp
next
  case (Some p)
  obtain r s' where p: "p = (r, s')" by (cases p)
  show ?thesis
  proof (cases "pulls nxt k s'")
    case None
    with Some p show ?thesis by simp
  next
    case q: (Some q)
    obtain rs' t' where "q = (rs', t')" by (cases q)
    with Some p q show ?thesis by auto
  qed
qed

lemma pulls_length: "pulls nxt k s = Some (rs, t) \<Longrightarrow> length rs = k"
proof (induction k arbitrary: s rs)
  case 0
  then show ?case by simp
next
  case (Suc k)
  from Suc.prems[unfolded pulls_Suc] obtain r s' rs' where
    "pulls nxt k s' = Some (rs', t)" "rs = r # rs'" by blast
  with Suc.IH[of s' rs'] show ?case by simp
qed

lemma pulls_add:
  "pulls nxt (j + k) s = Some (rs, t) \<longleftrightarrow>
     (\<exists>rs1 s1 rs2. pulls nxt j s = Some (rs1, s1) \<and> pulls nxt k s1 = Some (rs2, t) \<and> rs = rs1 @ rs2)"
proof (induction j arbitrary: s rs)
  case 0
  show ?case by simp
next
  case (Suc j)
  have "pulls nxt (Suc j + k) s = Some (rs, t) \<longleftrightarrow>
      (\<exists>r s' rs'. nxt s = Some (r, s') \<and> pulls nxt (j + k) s' = Some (rs', t) \<and> rs = r # rs')"
    using pulls_Suc[of nxt "j + k" s rs t] by simp
  also have "\<dots> \<longleftrightarrow> (\<exists>r s' rs1 s1 rs2. nxt s = Some (r, s') \<and> pulls nxt j s' = Some (rs1, s1)
      \<and> pulls nxt k s1 = Some (rs2, t) \<and> rs = r # rs1 @ rs2)"
    unfolding Suc.IH by blast
  also have "\<dots> \<longleftrightarrow> (\<exists>rs1 s1 rs2. pulls nxt (Suc j) s = Some (rs1, s1)
      \<and> pulls nxt k s1 = Some (rs2, t) \<and> rs = rs1 @ rs2)"
    unfolding pulls_Suc by auto
  finally show ?case .
qed

lemma pull_n_pulls:
  "pulls nxt (Suc k) s = Some (rs, t) \<Longrightarrow> pull_n nxt (Suc k) l s = Some (last rs, t)"
proof (induction k arbitrary: s rs l)
  case 0
  from 0[unfolded pulls_Suc] show ?case by auto
next
  case (Suc k)
  from Suc.prems[unfolded pulls_Suc[of nxt "Suc k"]] obtain r s' rs' where
    s': "nxt s = Some (r, s')" "pulls nxt (Suc k) s' = Some (rs', t)" "rs = r # rs'" by blast
  from pulls_length[OF s'(2)] have "rs' \<noteq> []" by auto
  with Suc.IH[OF s'(2), of r] s'(1,3) show ?case by (subst pull_n.simps) simp
qed

lemma yields_iff_pulls:
  "yields nxt s xs t \<longleftrightarrow> pulls nxt (Suc (length xs)) s = Some (map Some xs @ [None], t)"
proof (induction xs arbitrary: s)
  case Nil
  show ?case unfolding pulls_Suc by auto
next
  case (Cons x xs)
  show ?case unfolding yields_Cons_iff Cons.IH
    using pulls_Suc[of nxt "Suc (length xs)" s "map Some (x # xs) @ [None]" t] by auto
qed

lemma yields_pulls_prefix:
  "yields nxt s xs t \<Longrightarrow> k \<le> length xs \<Longrightarrow>
   \<exists>t'. pulls nxt k s = Some (map Some (take k xs), t') \<and> yields nxt t' (drop k xs) t"
proof (induction k arbitrary: s xs)
  case 0
  then show ?case by simp
next
  case (Suc k)
  from Suc.prems(2) obtain x r where xs: "xs = x # r" by (cases xs) auto
  from yields_ConsD[OF Suc.prems(1)[unfolded xs]] obtain s' where
    s': "nxt s = Some (Some x, s')" "yields nxt s' r t" by blast
  from Suc.prems(2) have "k \<le> length r" unfolding xs by simp
  from Suc.IH[OF s'(2) this] obtain t' where
    "pulls nxt k s' = Some (map Some (take k r), t')" "yields nxt t' (drop k r) t" by blast
  with s'(1) show ?case unfolding xs by simp
qed

subsection \<open>take\<close>

lemma take_next_pulls:
  "pulls nxt (Suc k) s = Some (map Some xs, t) \<Longrightarrow> nat (n - i) = k \<Longrightarrow> i \<le> n \<Longrightarrow>
   yields (take_next (counted nxt))
     \<lparr>tw_iter = (s, c), tw_predicate = \<lparr>currentCount = i, maxCount = n\<rparr>, tw_done = False\<rparr>
     (butlast xs)
     \<lparr>tw_iter = (t, c + k + 1), tw_predicate = \<lparr>currentCount = n + 1, maxCount = n\<rparr>, tw_done = True\<rparr>"
proof (induction k arbitrary: s xs c i)
  case 0
  from 0(1)[unfolded pulls_Suc] obtain r where r: "nxt s = Some (r, t)" "map Some xs = [r]" by auto
  then obtain x where x: "xs = [x]" "r = Some x" by (cases xs) auto
  from 0(2,3) have i: "i = n" by simp
  have "take_next (counted nxt)
          \<lparr>tw_iter = (s, c), tw_predicate = \<lparr>currentCount = i, maxCount = n\<rparr>, tw_done = False\<rparr>
        = Some (None, \<lparr>tw_iter = (t, c + 1), tw_predicate = \<lparr>currentCount = n + 1, maxCount = n\<rparr>, tw_done = True\<rparr>)"
    using r(1) x(2) i
    by (simp add: take_next_def TakeWhileIter_next_def counted_def Counter_pred_def Counter_call_def)
  then show ?case unfolding x(1) by simp
next
  case (Suc k)
  from Suc.prems(1)[unfolded pulls_Suc[of nxt "Suc k"]] obtain r s' rs' where
    s': "nxt s = Some (r, s')" "pulls nxt (Suc k) s' = Some (rs', t)" "map Some xs = r # rs'" by auto
  from s'(3) obtain x xs' where x: "xs = x # xs'" "r = Some x" "rs' = map Some xs'"
    by (cases xs) auto
  from pulls_length[OF s'(2)] x(3) have ne: "xs' \<noteq> []" by auto
  from Suc.prems(2,3) have i: "i < n" "nat (n - (i + 1)) = k" "i + 1 \<le> n" by linarith+
  have step: "take_next (counted nxt)
          \<lparr>tw_iter = (s, c), tw_predicate = \<lparr>currentCount = i, maxCount = n\<rparr>, tw_done = False\<rparr>
        = Some (Some x, \<lparr>tw_iter = (s', c + 1), tw_predicate = \<lparr>currentCount = i + 1, maxCount = n\<rparr>, tw_done = False\<rparr>)"
    using s'(1) x(2) i(1)
    by (simp add: take_next_def TakeWhileIter_next_def counted_def Counter_pred_def Counter_call_def)
  from Suc.IH[OF s'(2)[unfolded x(3)] i(2) i(3), of "c + 1"]
  have "yields (take_next (counted nxt))
     \<lparr>tw_iter = (s', c + 1), tw_predicate = \<lparr>currentCount = i + 1, maxCount = n\<rparr>, tw_done = False\<rparr>
     (butlast xs')
     \<lparr>tw_iter = (t, c + 1 + k + 1), tw_predicate = \<lparr>currentCount = n + 1, maxCount = n\<rparr>, tw_done = True\<rparr>" .
  with step ne show ?case unfolding x(1) by (simp add: yields_Cons_iff)
qed

text \<open>
  Claim C10. For every upstream whose first \<open>n + 1\<close> advancement calls return items, that
  is, every upstream with more than \<open>n\<close> items, ending or not (\<open>n \<ge> 0\<close>): \<^verbatim>\<open>take(n)\<close>
  collects exactly the first \<open>n\<close> of these items, and when it has signalled exhaustion the
  upstream has been advanced \<open>n + 1\<close> times and is in the state after its call number
  \<open>n + 1\<close>, whose item was pulled and discarded when the counter predicate first failed.
  In particular \<^verbatim>\<open>take(0)\<close> collects nothing and advances the upstream once. For an
  upstream that yields the list \<open>xs\<close> this says that the upstream goes on from position
  \<open>n + 1\<close> of \<open>xs\<close>.
\<close>

theorem take_pulls_one_more:
  "(0 \<le> n \<and> pulls nxt (nat n + 1) s = Some (map Some xs, t) \<longrightarrow>
      collect (take_next (counted nxt)) (take_new (s, c) n) =
        Some (take (nat n) xs,
              \<lparr>tw_iter = (t, c + nat n + 1),
               tw_predicate = \<lparr>currentCount = n + 1, maxCount = n\<rparr>, tw_done = True\<rparr>)
      \<and> length xs = nat n + 1)
   \<and> (pulls nxt 1 s = Some ([Some x], t) \<longrightarrow>
      collect (take_next (counted nxt)) (take_new (s, c) 0) =
        Some ([], \<lparr>tw_iter = (t, c + 1),
                   tw_predicate = \<lparr>currentCount = 1, maxCount = 0\<rparr>, tw_done = True\<rparr>))
   \<and> (0 \<le> n \<and> yields nxt s ys u \<and> n < int (length ys) \<longrightarrow>
      (\<exists>s'. collect (take_next (counted nxt)) (take_new (s, c) n) =
            Some (take (nat n) ys,
                  \<lparr>tw_iter = (s', c + nat n + 1),
                   tw_predicate = \<lparr>currentCount = n + 1, maxCount = n\<rparr>, tw_done = True\<rparr>)
          \<and> yields nxt s' (drop (nat n + 1) ys) u))"
proof -
  have gen: "collect (take_next (counted nxt)) (take_new (s, c) n) =
        Some (take (nat n) xs,
              \<lparr>tw_iter = (t, c + nat n + 1),
               tw_predicate = \<lparr>currentCount = n + 1, maxCount = n\<rparr>, tw_done = True\<rparr>)
      \<and> length xs = nat n + 1"
    if n: "0 \<le> n" and p: "pulls nxt (nat n + 1) s = Some (map Some xs, t)"
    for n s xs t
  proof -
    from pulls_length[OF p] have len: "length xs = nat n + 1" by simp
    then have b: "butlast xs = take (nat n) xs" by (simp add: butlast_conv_take)
    from p have p': "pulls nxt (Suc (nat n)) s = Some (map Some xs, t)" by simp
    have "nat (n - 0) = nat n" by simp
    from take_next_pulls[OF p' this n, of c]
    have "yields (take_next (counted nxt)) (take_new (s, c) n) (take (nat n) xs)
        \<lparr>tw_iter = (t, c + nat n + 1),
         tw_predicate = \<lparr>currentCount = n + 1, maxCount = n\<rparr>, tw_done = True\<rparr>"
      unfolding b take_new_def TakeWhileIter_new_def Counter_new_def .
    then have "collect (take_next (counted nxt)) (take_new (s, c) n) =
        Some (take (nat n) xs,
              \<lparr>tw_iter = (t, c + nat n + 1),
               tw_predicate = \<lparr>currentCount = n + 1, maxCount = n\<rparr>, tw_done = True\<rparr>)"
      by (simp only: collect_iff_yields)
    with len show ?thesis by blast
  qed
  have zero: "collect (take_next (counted nxt)) (take_new (s, c) 0) =
        Some ([], \<lparr>tw_iter = (t, c + 1),
                   tw_predicate = \<lparr>currentCount = 1, maxCount = 0\<rparr>, tw_done = True\<rparr>)"
    if "pulls nxt 1 s = Some ([Some x], t)"
    using gen[of 0 s "[x]" t] that by simp
  have fin: "\<exists>s'. collect (take_next (counted nxt)) (take_new (s, c) n) =
            Some (take (nat n) ys,
                  \<lparr>tw_iter = (s', c + nat n + 1),
                   tw_predicate = \<lparr>currentCount = n + 1, maxCount = n\<rparr>, tw_done = True\<rparr>)
          \<and> yields nxt s' (drop (nat n + 1) ys) u"
    if n: "0 \<le> n" and y: "yields nxt s ys u" and l: "n < int (length ys)"
  proof -
    from n l have "nat n + 1 \<le> length ys" by simp
    from yields_pulls_prefix[OF y this] obtain t' where
      t': "pulls nxt (nat n + 1) s = Some (map Some (take (nat n + 1) ys), t')"
        "yields nxt t' (drop (nat n + 1) ys) u" by blast
    from gen[OF n t'(1)] t'(2) show ?thesis by (intro exI[of _ t']) (simp add: min_def)
  qed
  from gen zero fin show ?thesis by blast
qed

lemma infinite_range_5_pulls:
  "pulls infinite_range_next 3 (infinite_range 5) =
     Some (map Some [5, 6, 7], \<lparr>irg_value = 8, irg_step = 1\<rparr>)"
  by (simp add: numeral_3_eq_3 infinite_range_next_def infinite_range_def GeneratorIter_next_def
      InfiniteRangeGenerator_call_def)

theorem take_pulls_one_more_witness:
  "(0::int) \<le> 2
   \<and> pulls infinite_range_next (nat 2 + 1) (infinite_range 5) =
       Some (map Some [5, 6, 7], \<lparr>irg_value = 8, irg_step = 1\<rparr>)
   \<and> collect (take_next (counted infinite_range_next)) (take_new (infinite_range 5, 0) 2) =
       Some ([5, 6],
             \<lparr>tw_iter = (\<lparr>irg_value = 8, irg_step = 1\<rparr>, 3),
              tw_predicate = \<lparr>currentCount = 3, maxCount = 2\<rparr>, tw_done = True\<rparr>)
   \<and> yields CppIteratorWrapper_next (iter [10, 20, 30, 40 :: int]) [10, 20, 30, 40] []
   \<and> (2::int) < int (length [10, 20, 30, 40 :: int])
   \<and> collect (take_next (counted CppIteratorWrapper_next)) (take_new (iter [10, 20, 30, 40 :: int], 0) 2) =
       Some ([10, 20],
             \<lparr>tw_iter = ([40], 3),
              tw_predicate = \<lparr>currentCount = 3, maxCount = 2\<rparr>, tw_done = True\<rparr>)"
proof -
  have p: "pulls infinite_range_next (nat 2 + 1) (infinite_range 5) =
       Some (map Some [5, 6, 7], \<lparr>irg_value = 8, irg_step = 1\<rparr>)"
    using infinite_range_5_pulls by simp
  have n: "(0::int) \<le> 2" by simp
  from take_pulls_one_more[THEN conjunct1, rule_format, of 2 infinite_range_next "infinite_range 5"
      "[5, 6, 7]" "\<lparr>irg_value = 8, irg_step = 1\<rparr>" 0] n p
  have 1: "collect (take_next (counted infinite_range_next)) (take_new (infinite_range 5, 0) 2) =
       Some ([5, 6],
             \<lparr>tw_iter = (\<lparr>irg_value = 8, irg_step = 1\<rparr>, 3),
              tw_predicate = \<lparr>currentCount = 3, maxCount = 2\<rparr>, tw_done = True\<rparr>)"
    by simp
  have y: "yields CppIteratorWrapper_next (iter [10, 20, 30, 40 :: int]) [10, 20, 30, 40] []"
    by (rule CppIteratorWrapper_yields)
  have l: "(2::int) < int (length [10, 20, 30, 40 :: int])" by simp
  from take_pulls_one_more[THEN conjunct2, THEN conjunct2, rule_format,
      of 2 CppIteratorWrapper_next "iter [10, 20, 30, 40 :: int]" "[10, 20, 30, 40]" "[]" 0] n y l
  obtain s' where
    c: "collect (take_next (counted CppIteratorWrapper_next)) (take_new (iter [10, 20, 30, 40 :: int], 0) 2) =
            Some (take (nat 2) [10, 20, 30, 40],
                  \<lparr>tw_iter = (s', 0 + nat 2 + 1),
                   tw_predicate = \<lparr>currentCount = 2 + 1, maxCount = 2\<rparr>, tw_done = True\<rparr>)"
    and d: "yields CppIteratorWrapper_next s' (drop (nat 2 + 1) [10, 20, 30, 40 :: int]) []"
    by blast
  from d have "s' = [40]" by (simp only: CppIteratorWrapper_yields_iff) simp
  with c have 2: "collect (take_next (counted CppIteratorWrapper_next)) (take_new (iter [10, 20, 30, 40 :: int], 0) 2) =
       Some ([10, 20],
             \<lparr>tw_iter = ([40], 3),
              tw_predicate = \<lparr>currentCount = 3, maxCount = 2\<rparr>, tw_done = True\<rparr>)"
    by simp
  from n p 1 y l 2 show ?thesis by (intro conjI)
qed

subsection \<open>zip\<close>

lemma pulls_Suc_items:
  assumes "pulls nxt (Suc (Suc m)) s = Some (map Some xs @ [e], t)" and "length xs = Suc m"
  shows "\<exists>x xs' s'. xs = x # xs' \<and> nxt s = Some (Some x, s')
      \<and> pulls nxt (Suc m) s' = Some (map Some xs' @ [e], t) \<and> length xs' = m"
proof -
  from assms(2) obtain x xs' where xs: "xs = x # xs'" "length xs' = m" by (cases xs) auto
  from assms(1)[unfolded pulls_Suc[of nxt "Suc m"]] obtain r s' rs' where
    "nxt s = Some (r, s')" "pulls nxt (Suc m) s' = Some (rs', t)" "map Some xs @ [e] = r # rs'"
    by auto
  with xs show ?thesis by auto
qed

lemma ZipIter_until_exhausted:
  "pulls nxtA (Suc m) a = Some (map Some xs @ [ea], ta) \<Longrightarrow>
   pulls nxtB (Suc m) b = Some (map Some ys @ [eb], tb) \<Longrightarrow>
   length xs = m \<Longrightarrow> length ys = m \<Longrightarrow> ea = None \<or> eb = None \<Longrightarrow>
   yields (ZipIter_next (counted nxtA) (counted nxtB))
     \<lparr>z_iter = (a, ca), z_zippedIter = (b, cb), z_anyDone = False\<rparr>
     (zip xs ys)
     \<lparr>z_iter = (ta, ca + m + 1), z_zippedIter = (tb, cb + m + 1), z_anyDone = True\<rparr>"
proof (induction m arbitrary: xs ys a b ca cb)
  case 0
  then have e: "xs = []" "ys = []" by simp_all
  from 0(1)[unfolded e pulls_Suc] have a: "nxtA a = Some (ea, ta)" by auto
  from 0(2)[unfolded e pulls_Suc] have b: "nxtB b = Some (eb, tb)" by auto
  have "ZipIter_next (counted nxtA) (counted nxtB)
          \<lparr>z_iter = (a, ca), z_zippedIter = (b, cb), z_anyDone = False\<rparr>
        = Some (None, \<lparr>z_iter = (ta, ca + 1), z_zippedIter = (tb, cb + 1), z_anyDone = True\<rparr>)"
    using a b 0(5) by (auto simp: ZipIter_next_def counted_def split: option.splits)
  then show ?case unfolding e by simp
next
  case (Suc m)
  from pulls_Suc_items[OF Suc.prems(1) Suc.prems(3)] obtain x xs' a' where
    a: "xs = x # xs'" "nxtA a = Some (Some x, a')"
      "pulls nxtA (Suc m) a' = Some (map Some xs' @ [ea], ta)" "length xs' = m" by blast
  from pulls_Suc_items[OF Suc.prems(2) Suc.prems(4)] obtain y ys' b' where
    b: "ys = y # ys'" "nxtB b = Some (Some y, b')"
      "pulls nxtB (Suc m) b' = Some (map Some ys' @ [eb], tb)" "length ys' = m" by blast
  have step: "ZipIter_next (counted nxtA) (counted nxtB)
          \<lparr>z_iter = (a, ca), z_zippedIter = (b, cb), z_anyDone = False\<rparr>
        = Some (Some (x, y), \<lparr>z_iter = (a', ca + 1), z_zippedIter = (b', cb + 1), z_anyDone = False\<rparr>)"
    using a(2) b(2) by (simp add: ZipIter_next_def counted_def)
  from Suc.IH[OF a(3) b(3) a(4) b(4) Suc.prems(5), of "ca + 1" "cb + 1"]
  have "yields (ZipIter_next (counted nxtA) (counted nxtB))
     \<lparr>z_iter = (a', ca + 1), z_zippedIter = (b', cb + 1), z_anyDone = False\<rparr>
     (zip xs' ys')
     \<lparr>z_iter = (ta, ca + 1 + m + 1), z_zippedIter = (tb, cb + 1 + m + 1), z_anyDone = True\<rparr>" .
  with step show ?case unfolding a(1) b(1) by (simp add: yields_Cons_iff)
qed

lemma ZipIter_pulls:
  "pulls nxtA k a = Some (map Some xs, ta) \<Longrightarrow> pulls nxtB k b = Some (map Some ys, tb) \<Longrightarrow>
   pulls (ZipIter_next (counted nxtA) (counted nxtB)) k
     \<lparr>z_iter = (a, ca), z_zippedIter = (b, cb), z_anyDone = False\<rparr> =
   Some (map Some (zip xs ys),
         \<lparr>z_iter = (ta, ca + k), z_zippedIter = (tb, cb + k), z_anyDone = False\<rparr>)"
proof (induction k arbitrary: xs ys a b ca cb)
  case 0
  then show ?case by simp
next
  case (Suc k)
  from Suc.prems(1)[unfolded pulls_Suc] obtain r a' rs where
    a: "nxtA a = Some (r, a')" "pulls nxtA k a' = Some (rs, ta)" "map Some xs = r # rs" by auto
  from a(3) obtain x xs' where x: "xs = x # xs'" "r = Some x" "rs = map Some xs'"
    by (cases xs) auto
  from Suc.prems(2)[unfolded pulls_Suc] obtain q b' qs where
    b: "nxtB b = Some (q, b')" "pulls nxtB k b' = Some (qs, tb)" "map Some ys = q # qs" by auto
  from b(3) obtain y ys' where y: "ys = y # ys'" "q = Some y" "qs = map Some ys'"
    by (cases ys) auto
  have step: "ZipIter_next (counted nxtA) (counted nxtB)
          \<lparr>z_iter = (a, ca), z_zippedIter = (b, cb), z_anyDone = False\<rparr>
        = Some (Some (x, y), \<lparr>z_iter = (a', ca + 1), z_zippedIter = (b', cb + 1), z_anyDone = False\<rparr>)"
    using a(1) b(1) x(2) y(2) by (simp add: ZipIter_next_def counted_def)
  from Suc.IH[OF a(2)[unfolded x(3)] b(2)[unfolded y(3)], of "ca + 1" "cb + 1"] step
  show ?case unfolding x(1) y(1) by simp
qed

text \<open>
  Claim C3. \<^verbatim>\<open>zip\<close> pairs the \<open>i\<close>-th item of \<open>A\<close> with the \<open>i\<close>-th item of \<open>B\<close>, in
  order, and ends in the step in which either source signals exhaustion. The sources are any
  sequences, ending or not. When the first \<open>m\<close> calls of both sources return items (\<open>xs\<close>,
  \<open>ys\<close>) and in call \<open>m + 1\<close> at least one source signals exhaustion, \<^verbatim>\<open>zip\<close> collects
  exactly the \<open>m\<close> pairs \<open>zip xs ys\<close>; both sources have then been advanced \<open>m + 1\<close> times
  and are in the state after their call \<open>m + 1\<close>, so whatever the other source returned in
  that call is dropped, and \<^verbatim>\<open>_anyDone\<close> is set. As long as both sources return items,
  so do the calls of \<^verbatim>\<open>zip\<close>, pairing them index by index (this is all there is to say
  when neither source ends). When both sources end, yielding \<open>xs\<close> and \<open>ys\<close>, the number of
  pairs is the smaller of the two lengths.
\<close>

theorem zip_min_length:
  "(pulls nxtA (Suc m) a = Some (map Some xs @ [ea], ta)
      \<and> pulls nxtB (Suc m) b = Some (map Some ys @ [eb], tb)
      \<and> length xs = m \<and> length ys = m \<and> (ea = None \<or> eb = None) \<longrightarrow>
      collect (ZipIter_next (counted nxtA) (counted nxtB)) (ZipIter_new (a, ca) (b, cb)) =
        Some (zip xs ys,
              \<lparr>z_iter = (ta, ca + m + 1), z_zippedIter = (tb, cb + m + 1), z_anyDone = True\<rparr>)
      \<and> length (zip xs ys) = m
      \<and> (\<forall>i < m. zip xs ys ! i = (xs ! i, ys ! i)))
   \<and> (pulls nxtA k a = Some (map Some xs, ta) \<and> pulls nxtB k b = Some (map Some ys, tb) \<longrightarrow>
      pulls (ZipIter_next (counted nxtA) (counted nxtB)) k (ZipIter_new (a, ca) (b, cb)) =
        Some (map Some (zip xs ys),
              \<lparr>z_iter = (ta, ca + k), z_zippedIter = (tb, cb + k), z_anyDone = False\<rparr>)
      \<and> length (zip xs ys) = k
      \<and> (\<forall>i < k. zip xs ys ! i = (xs ! i, ys ! i)))
   \<and> (yields nxtA a xs ta \<and> yields nxtB b ys tb \<longrightarrow>
      (\<exists>a' b'.
        collect (ZipIter_next (counted nxtA) (counted nxtB)) (ZipIter_new (a, ca) (b, cb)) =
          Some (zip xs ys,
                \<lparr>z_iter = (a', ca + min (length xs) (length ys) + 1),
                 z_zippedIter = (b', cb + min (length xs) (length ys) + 1), z_anyDone = True\<rparr>)
        \<and> length (zip xs ys) = min (length xs) (length ys)
        \<and> (\<forall>i < min (length xs) (length ys). zip xs ys ! i = (xs ! i, ys ! i))
        \<and> (if length ys < length xs then yields nxtA a' (drop (Suc (length ys)) xs) ta else a' = ta)
        \<and> (if length xs < length ys then yields nxtB b' (drop (Suc (length xs)) ys) tb else b' = tb)))"
proof (intro conjI impI)
  assume h: "pulls nxtA (Suc m) a = Some (map Some xs @ [ea], ta)
      \<and> pulls nxtB (Suc m) b = Some (map Some ys @ [eb], tb)
      \<and> length xs = m \<and> length ys = m \<and> (ea = None \<or> eb = None)"
  then have "yields (ZipIter_next (counted nxtA) (counted nxtB)) (ZipIter_new (a, ca) (b, cb))
     (zip xs ys)
     \<lparr>z_iter = (ta, ca + m + 1), z_zippedIter = (tb, cb + m + 1), z_anyDone = True\<rparr>"
    unfolding ZipIter_new_def using ZipIter_until_exhausted[of nxtA m a xs ea ta nxtB b ys eb tb ca cb]
    by blast
  then show "collect (ZipIter_next (counted nxtA) (counted nxtB)) (ZipIter_new (a, ca) (b, cb)) =
        Some (zip xs ys,
              \<lparr>z_iter = (ta, ca + m + 1), z_zippedIter = (tb, cb + m + 1), z_anyDone = True\<rparr>)"
    by (simp only: collect_iff_yields)
  from h show "length (zip xs ys) = m" by simp
  from h show "\<forall>i < m. zip xs ys ! i = (xs ! i, ys ! i)" by simp
next
  assume h: "pulls nxtA k a = Some (map Some xs, ta) \<and> pulls nxtB k b = Some (map Some ys, tb)"
  then show "pulls (ZipIter_next (counted nxtA) (counted nxtB)) k (ZipIter_new (a, ca) (b, cb)) =
        Some (map Some (zip xs ys),
              \<lparr>z_iter = (ta, ca + k), z_zippedIter = (tb, cb + k), z_anyDone = False\<rparr>)"
    unfolding ZipIter_new_def using ZipIter_pulls[of nxtA k a xs ta nxtB b ys tb ca cb] by blast
  from h pulls_length[of nxtA k a "map Some xs" ta] pulls_length[of nxtB k b "map Some ys" tb]
  have l: "length xs = k" "length ys = k" by auto
  then show "length (zip xs ys) = k" by simp
  from l show "\<forall>i < k. zip xs ys ! i = (xs ! i, ys ! i)" by simp
next
  assume h: "yields nxtA a xs ta \<and> yields nxtB b ys tb"
  then have ya: "yields nxtA a xs ta" and yb: "yields nxtB b ys tb" by simp_all
  from ZipIter_yields[OF ya yb, of ca cb] obtain a' b' where
    "yields (ZipIter_next (counted nxtA) (counted nxtB)) (ZipIter_new (a, ca) (b, cb))
            (zip xs ys)
            \<lparr>z_iter = (a', ca + min (length xs) (length ys) + 1),
             z_zippedIter = (b', cb + min (length xs) (length ys) + 1), z_anyDone = True\<rparr>"
    "if length ys < length xs then yields nxtA a' (drop (Suc (length ys)) xs) ta else a' = ta"
    "if length xs < length ys then yields nxtB b' (drop (Suc (length xs)) ys) tb else b' = tb"
    unfolding ZipIter_new_def by blast
  then show "\<exists>a' b'.
        collect (ZipIter_next (counted nxtA) (counted nxtB)) (ZipIter_new (a, ca) (b, cb)) =
          Some (zip xs ys,
                \<lparr>z_iter = (a', ca + min (length xs) (length ys) + 1),
                 z_zippedIter = (b', cb + min (length xs) (length ys) + 1), z_anyDone = True\<rparr>)
        \<and> length (zip xs ys) = min (length xs) (length ys)
        \<and> (\<forall>i < min (length xs) (length ys). zip xs ys ! i = (xs ! i, ys ! i))
        \<and> (if length ys < length xs then yields nxtA a' (drop (Suc (length ys)) xs) ta else a' = ta)
        \<and> (if length xs < length ys then yields nxtB b' (drop (Suc (length xs)) ys) tb else b' = tb)"
    unfolding collect_iff_yields[symmetric] by (intro exI[of _ a'] exI[of _ b']) simp
qed

lemma infinite_range_0_pulls:
  "pulls infinite_range_next (Suc 2) (infinite_range 0) =
     Some (map Some [0, 1] @ [Some 2], \<lparr>irg_value = 3, irg_step = 1\<rparr>)"
  by (simp add: numeral_2_eq_2 infinite_range_next_def infinite_range_def GeneratorIter_next_def
      InfiniteRangeGenerator_call_def)

lemma iter_True_False_pulls:
  "pulls CppIteratorWrapper_next (Suc 2) (iter [True, False]) =
     Some (map Some [True, False] @ [None], [])"
  by (simp add: numeral_2_eq_2 iter_def CppIteratorWrapper_next_Cons CppIteratorWrapper_next_Nil)

lemma infinite_range_10_pulls:
  "pulls infinite_range_next 2 (infinite_range 10) =
     Some (map Some [10, 11], \<lparr>irg_value = 12, irg_step = 1\<rparr>)"
  by (simp add: numeral_2_eq_2 infinite_range_next_def infinite_range_def GeneratorIter_next_def
      InfiniteRangeGenerator_call_def)

lemma infinite_range_0_pulls_2:
  "pulls infinite_range_next 2 (infinite_range 0) =
     Some (map Some [0, 1], \<lparr>irg_value = 2, irg_step = 1\<rparr>)"
  by (simp add: numeral_2_eq_2 infinite_range_next_def infinite_range_def GeneratorIter_next_def
      InfiniteRangeGenerator_call_def)

theorem zip_min_length_witness:
  "pulls infinite_range_next (Suc 2) (infinite_range 0) =
     Some (map Some [0, 1] @ [Some 2], \<lparr>irg_value = 3, irg_step = 1\<rparr>)
   \<and> pulls CppIteratorWrapper_next (Suc 2) (iter [True, False]) =
     Some (map Some [True, False] @ [None], [])
   \<and> collect (ZipIter_next (counted infinite_range_next) (counted CppIteratorWrapper_next))
       (ZipIter_new (infinite_range 0, 0) (iter [True, False], 0)) =
     Some ([(0, True), (1, False)],
           \<lparr>z_iter = (\<lparr>irg_value = 3, irg_step = 1\<rparr>, 3), z_zippedIter = ([], 3),
            z_anyDone = True\<rparr>)
   \<and> pulls infinite_range_next 2 (infinite_range 0) =
       Some (map Some [0, 1], \<lparr>irg_value = 2, irg_step = 1\<rparr>)
   \<and> pulls infinite_range_next 2 (infinite_range 10) =
       Some (map Some [10, 11], \<lparr>irg_value = 12, irg_step = 1\<rparr>)
   \<and> pulls (ZipIter_next (counted infinite_range_next) (counted infinite_range_next)) 2
       (ZipIter_new (infinite_range 0, 0) (infinite_range 10, 0)) =
     Some ([Some (0, 10), Some (1, 11)],
           \<lparr>z_iter = (\<lparr>irg_value = 2, irg_step = 1\<rparr>, 2),
            z_zippedIter = (\<lparr>irg_value = 12, irg_step = 1\<rparr>, 2), z_anyDone = False\<rparr>)
   \<and> yields CppIteratorWrapper_next (iter [1, 2, 3 :: int]) [1, 2, 3] []
   \<and> yields CppIteratorWrapper_next (iter [True, False]) [True, False] []
   \<and> collect (ZipIter_next (counted CppIteratorWrapper_next) (counted CppIteratorWrapper_next))
       (ZipIter_new (iter [1, 2, 3 :: int], 0) (iter [True, False], 0)) =
     Some ([(1, True), (2, False)],
           \<lparr>z_iter = ([], 3), z_zippedIter = ([], 3), z_anyDone = True\<rparr>)"
proof -
  have a: "pulls infinite_range_next (Suc 2) (infinite_range 0) =
     Some (map Some [0, 1] @ [Some 2], \<lparr>irg_value = 3, irg_step = 1\<rparr>)"
    by (rule infinite_range_0_pulls)
  have b: "pulls CppIteratorWrapper_next (Suc 2) (iter [True, False]) =
     Some (map Some [True, False] @ [None], [])"
    by (rule iter_True_False_pulls)
  from zip_min_length[THEN conjunct1, rule_format, of infinite_range_next 2 "infinite_range 0"
      "[0, 1]" "Some 2" "\<lparr>irg_value = 3, irg_step = 1\<rparr>" CppIteratorWrapper_next
      "iter [True, False]" "[True, False]" None "[]" 0 0] a b
  have 1: "collect (ZipIter_next (counted infinite_range_next) (counted CppIteratorWrapper_next))
       (ZipIter_new (infinite_range 0, 0) (iter [True, False], 0)) =
     Some ([(0, True), (1, False)],
           \<lparr>z_iter = (\<lparr>irg_value = 3, irg_step = 1\<rparr>, 3), z_zippedIter = ([], 3),
            z_anyDone = True\<rparr>)"
    by simp
  have c: "pulls infinite_range_next 2 (infinite_range 0) =
       Some (map Some [0, 1], \<lparr>irg_value = 2, irg_step = 1\<rparr>)"
    by (rule infinite_range_0_pulls_2)
  have d: "pulls infinite_range_next 2 (infinite_range 10) =
       Some (map Some [10, 11], \<lparr>irg_value = 12, irg_step = 1\<rparr>)"
    by (rule infinite_range_10_pulls)
  from zip_min_length[THEN conjunct2, THEN conjunct1, rule_format, of infinite_range_next 2
      "infinite_range 0" "[0, 1]" "\<lparr>irg_value = 2, irg_step = 1\<rparr>" infinite_range_next
      "infinite_range 10" "[10, 11]" "\<lparr>irg_value = 12, irg_step = 1\<rparr>" 0 0] c d
  have 2: "pulls (ZipIter_next (counted infinite_range_next) (counted infinite_range_next)) 2
       (ZipIter_new (infinite_range 0, 0) (infinite_range 10, 0)) =
     Some ([Some (0, 10), Some (1, 11)],
           \<lparr>z_iter = (\<lparr>irg_value = 2, irg_step = 1\<rparr>, 2),
            z_zippedIter = (\<lparr>irg_value = 12, irg_step = 1\<rparr>, 2), z_anyDone = False\<rparr>)"
    by simp
  have e: "yields CppIteratorWrapper_next (iter [1, 2, 3 :: int]) [1, 2, 3] []"
    by (rule CppIteratorWrapper_yields)
  have f: "yields CppIteratorWrapper_next (iter [True, False]) [True, False] []"
    by (rule CppIteratorWrapper_yields)
  from zip_min_length[THEN conjunct2, THEN conjunct2, rule_format, of CppIteratorWrapper_next
      "iter [1, 2, 3 :: int]" "[1, 2, 3]" "[]" CppIteratorWrapper_next "iter [True, False]"
      "[True, False]" "[]" 0 0] e f
  have 3: "collect (ZipIter_next (counted CppIteratorWrapper_next) (counted CppIteratorWrapper_next))
       (ZipIter_new (iter [1, 2, 3 :: int], 0) (iter [True, False], 0)) =
     Some ([(1, True), (2, False)],
           \<lparr>z_iter = ([], 3), z_zippedIter = ([], 3), z_anyDone = True\<rparr>)"
    by (auto simp del: yields.simps simp add: CppIteratorWrapper_yields_iff)
  from a b 1 c d 2 e f 3 show ?thesis by (intro conjI)
qed

subsection \<open>step\_by with a positive step\<close>

lemma StepByIter_pulls_rest:
  assumes m: "0 < m" "nat n = m"
  shows "pulls nxt (k * m) s = Some (rs, t) \<Longrightarrow>
    pulls (StepByIter_next nxt) k
      \<lparr>sb_iter = s, sb_stepSize = n, sb_first = False, sb_invalid = False\<rparr> =
    Some (map (\<lambda>i. rs ! (i * m + m - 1)) [0..<k],
          \<lparr>sb_iter = t, sb_stepSize = n, sb_first = False, sb_invalid = False\<rparr>)"
proof (induction k arbitrary: s rs)
  case 0
  then show ?case by simp
next
  case (Suc k)
  from Suc.prems have "pulls nxt (m + k * m) s = Some (rs, t)" by simp
  then obtain rs1 s1 rs2 where
    p1: "pulls nxt m s = Some (rs1, s1)" and p2: "pulls nxt (k * m) s1 = Some (rs2, t)"
    and rs: "rs = rs1 @ rs2"
    unfolding pulls_add by blast
  from m(1) obtain m' where m': "m = Suc m'" by (cases m) auto
  from pulls_length[OF p1] have l1: "length rs1 = m" .
  with m' have ne: "rs1 \<noteq> []" by auto
  from pull_n_pulls[OF p1[unfolded m'], of None]
  have "pull_n nxt m None s = Some (last rs1, s1)" unfolding m' .
  then have step: "StepByIter_next nxt
      \<lparr>sb_iter = s, sb_stepSize = n, sb_first = False, sb_invalid = False\<rparr> =
      Some (last rs1, \<lparr>sb_iter = s1, sb_stepSize = n, sb_first = False, sb_invalid = False\<rparr>)"
    by (simp add: StepByIter_next_cases m(2))
  have hd: "rs ! (m - 1) = last rs1"
    using ne l1 m(1) unfolding rs by (simp add: nth_append last_conv_nth)
  have tl: "rs ! (Suc i * m + m - 1) = rs2 ! (i * m + m - 1)" for i
  proof -
    have "Suc i * m + m - 1 = length rs1 + (i * m + m - 1)" using l1 m(1) by simp
    then show ?thesis unfolding rs by (simp only: nth_append_length_plus)
  qed
  have "map (\<lambda>i. rs ! (i * m + m - 1)) [0..<Suc k] =
      rs ! (m - 1) # map (\<lambda>i. rs ! (Suc i * m + m - 1)) [0..<k]"
    by (simp only: upt_conv_Cons[of 0 "Suc k"] map_Suc_upt[symmetric] list.map map_map o_def)
      simp
  also have "\<dots> = last rs1 # map (\<lambda>i. rs2 ! (i * m + m - 1)) [0..<k]"
    by (simp only: hd tl)
  finally have e: "map (\<lambda>i. rs ! (i * m + m - 1)) [0..<Suc k] =
      last rs1 # map (\<lambda>i. rs2 ! (i * m + m - 1)) [0..<k]" .
  from Suc.IH[OF p2] step show ?case unfolding e by simp
qed

lemma StepByIter_pulls:
  assumes n: "1 \<le> n"
    and p: "pulls nxt (Suc (k * nat n)) s = Some (rs, t)"
  shows "pulls (StepByIter_next nxt) (Suc k) (StepByIter_new s n) =
    Some (map (\<lambda>i. rs ! (i * nat n)) [0..<Suc k],
          \<lparr>sb_iter = t, sb_stepSize = n, sb_first = False, sb_invalid = False\<rparr>)"
proof -
  define m where "m = nat n"
  from n have m: "0 < m" "nat n = m" by (simp_all add: m_def)
  from p[unfolded pulls_Suc] obtain r s' rs' where
    s': "nxt s = Some (r, s')" "pulls nxt (k * m) s' = Some (rs', t)" "rs = r # rs'"
    unfolding m_def by blast
  from n s'(1) have step: "StepByIter_next nxt (StepByIter_new s n) =
      Some (r, \<lparr>sb_iter = s', sb_stepSize = n, sb_first = False, sb_invalid = False\<rparr>)"
    by (simp add: StepByIter_next_def StepByIter_new_def)
  have tl: "rs ! (Suc i * m) = rs' ! (i * m + m - 1)" for i
  proof -
    have "Suc i * m = Suc (i * m + m - 1)" using m(1) by simp
    then show ?thesis unfolding s'(3) by (simp only: nth_Cons_Suc)
  qed
  have "map (\<lambda>i. rs ! (i * m)) [0..<Suc k] = rs ! 0 # map (\<lambda>i. rs ! (Suc i * m)) [0..<k]"
    by (simp only: upt_conv_Cons[of 0 "Suc k"] map_Suc_upt[symmetric] list.map map_map o_def)
      simp
  also have "\<dots> = r # map (\<lambda>i. rs' ! (i * m + m - 1)) [0..<k]"
    by (simp only: tl) (simp add: s'(3))
  finally have e: "map (\<lambda>i. rs ! (i * m)) [0..<Suc k] =
      r # map (\<lambda>i. rs' ! (i * m + m - 1)) [0..<k]" .
  from StepByIter_pulls_rest[OF m s'(2)] step show ?thesis
    unfolding m(2) e by simp
qed

lemma stays_exhausted_step:
  assumes "stays_exhausted nxt t"
  shows "\<exists>t'. nxt t = Some (None, t') \<and> stays_exhausted nxt t'"
proof -
  from assms[unfolded stays_exhausted_def, rule_format, of 0] obtain t' where
    t': "nxt t = Some (None, t')" by auto
  have "stays_exhausted nxt t'"
    unfolding stays_exhausted_def
  proof
    fix k
    from assms[unfolded stays_exhausted_def, rule_format, of "Suc k"] t'
    show "\<exists>u u'. advance_n nxt k t' = Some u \<and> nxt u = Some (None, u')" by simp
  qed
  with t' show ?thesis by blast
qed

lemma stays_exhausted_pulls:
  "stays_exhausted nxt t \<Longrightarrow> \<exists>t'. pulls nxt j t = Some (replicate j None, t')"
proof (induction j arbitrary: t)
  case 0
  show ?case by simp
next
  case (Suc j)
  from stays_exhausted_step[OF Suc.prems] obtain t1 where
    t1: "nxt t = Some (None, t1)" "stays_exhausted nxt t1" by blast
  from Suc.IH[OF t1(2)] obtain t' where "pulls nxt j t1 = Some (replicate j None, t')" by blast
  with t1(1) show ?case by simp
qed

lemma ceil_div_bounds:
  fixes L m :: nat
  assumes "0 < m"
  shows "L \<le> ((L + m - 1) div m) * m" and "i < (L + m - 1) div m \<Longrightarrow> i * m < L"
proof -
  have "(L + m - 1) div m < Suc ((L + m - 1) div m)" by simp
  then have "L + m - 1 < Suc ((L + m - 1) div m) * m"
    using assms by (simp only: div_less_iff_less_mult)
  with assms show "L \<le> ((L + m - 1) div m) * m" by simp
next
  assume "i < (L + m - 1) div m"
  then have "Suc i \<le> (L + m - 1) div m" by simp
  then have "Suc i * m \<le> L + m - 1" using assms by (simp only: less_eq_div_iff_mult_less_eq)
  with assms show "i * m < L" by simp
qed

lemma StepByIter_yields:
  assumes n: "1 \<le> n" and y: "yields nxt s xs t" and e: "stays_exhausted nxt t"
  shows "\<exists>t'. yields (StepByIter_next nxt) (StepByIter_new s n)
      (map (\<lambda>i. xs ! (i * nat n)) [0..<(length xs + nat n - 1) div nat n])
      \<lparr>sb_iter = t', sb_stepSize = n, sb_first = False, sb_invalid = False\<rparr>"
proof -
  define m where "m = nat n"
  define q where "q = (length xs + m - 1) div m"
  from n have m: "0 < m" by (simp add: m_def)
  from ceil_div_bounds(1)[OF m, of "length xs"] have ge: "length xs \<le> q * m" by (simp add: q_def)
  from ceil_div_bounds(2)[OF m, of _ "length xs"] have lt: "i < q \<Longrightarrow> i * m < length xs" for i
    by (simp add: q_def)
  define j where "j = q * m - length xs"
  from stays_exhausted_pulls[OF e, of j] obtain t' where
    t': "pulls nxt j t = Some (replicate j None, t')" by blast
  from y have "pulls nxt (Suc (length xs)) s = Some (map Some xs @ [None], t)"
    by (simp only: yields_iff_pulls)
  with t' have "pulls nxt (Suc (length xs) + j) s = Some ((map Some xs @ [None]) @ replicate j None, t')"
    unfolding pulls_add by blast
  moreover have "Suc (length xs) + j = Suc (q * m)" using ge by (simp add: j_def)
  ultimately have p: "pulls nxt (Suc (q * nat n)) s =
      Some ((map Some xs @ [None]) @ replicate j None, t')"
    by (simp only: m_def)
  define rs where "rs = (map Some xs @ [None]) @ replicate j None"
  have items: "rs ! (i * m) = Some (xs ! (i * m))" if "i < q" for i
    using lt[OF that] by (simp add: rs_def nth_append)
  have lrs: "length rs = Suc (q * m)" using ge by (simp add: rs_def j_def)
  have last: "rs ! (q * m) = None"
  proof (cases "q * m = length xs")
    case True
    then show ?thesis by (simp add: rs_def nth_append)
  next
    case False
    with ge have "length xs < q * m" by simp
    then show ?thesis by (simp add: rs_def nth_append j_def)
  qed
  have "map (\<lambda>i. rs ! (i * m)) [0..<Suc q] = map (\<lambda>i. rs ! (i * m)) [0..<q] @ [rs ! (q * m)]"
    by simp
  also have "map (\<lambda>i. rs ! (i * m)) [0..<q] = map (\<lambda>i. Some (xs ! (i * m))) [0..<q]"
    using items by simp
  also have "\<dots> = map Some (map (\<lambda>i. xs ! (i * m)) [0..<q])" by (simp add: o_def)
  finally have e2: "map (\<lambda>i. rs ! (i * m)) [0..<Suc q] =
      map Some (map (\<lambda>i. xs ! (i * m)) [0..<q]) @ [None]"
    by (simp only: last)
  from StepByIter_pulls[OF n p] have "pulls (StepByIter_next nxt) (Suc q) (StepByIter_new s n) =
      Some (map Some (map (\<lambda>i. xs ! (i * m)) [0..<q]) @ [None],
            \<lparr>sb_iter = t', sb_stepSize = n, sb_first = False, sb_invalid = False\<rparr>)"
    unfolding rs_def[symmetric] m_def[symmetric] e2 .
  moreover have "length (map (\<lambda>i. xs ! (i * m)) [0..<q]) = q" by simp
  ultimately have "yields (StepByIter_next nxt) (StepByIter_new s n)
      (map (\<lambda>i. xs ! (i * m)) [0..<q])
      \<lparr>sb_iter = t', sb_stepSize = n, sb_first = False, sb_invalid = False\<rparr>"
    by (simp only: yields_iff_pulls)
  then show ?thesis unfolding q_def m_def by blast
qed

lemma range_0_10_step_by_3:
  "map_option fst (collect (StepByIter_next range_next) (StepByIter_new (rusty_range 0 10) 3)) =
     Some [0, 3, 6, 9]"
proof -
  have "stays_exhausted range_next
      \<lparr>fg_generatorFunction = \<lparr>frg_value = 10, frg_end = 10, frg_step = 1\<rparr>, fg_done = True\<rparr>"
    unfolding range_next_def
    by (rule sticky_on_stays_exhausted[OF sticky_on_FiniteGeneratorIter, where s =
          "\<lparr>fg_generatorFunction = \<lparr>frg_value = 10, frg_end = 10, frg_step = 1\<rparr>, fg_done = True\<rparr>"])
       (simp_all add: FiniteGeneratorIter_next_def)
  moreover have "(1::int) \<le> 3" by simp
  ultimately obtain t' where
    "yields (StepByIter_next range_next) (StepByIter_new (rusty_range 0 10) 3)
      (map (\<lambda>i. [0, 1, 2, 3, 4, 5, 6, 7, 8, 9] ! (i * nat 3))
        [0..<(length [0, 1, 2, 3, 4, 5, 6, 7, 8, 9 :: int] + nat 3 - 1) div nat 3])
      \<lparr>sb_iter = t', sb_stepSize = 3, sb_first = False, sb_invalid = False\<rparr>"
    using StepByIter_yields[OF _ range_0_10_yields, of 3] by blast
  moreover have "map (\<lambda>i. [0, 1, 2, 3, 4, 5, 6, 7, 8, 9 :: int] ! (i * nat 3))
        [0..<(length [0, 1, 2, 3, 4, 5, 6, 7, 8, 9 :: int] + nat 3 - 1) div nat 3]
      = [0, 3, 6, 9]"
  proof -
    have "(length [0, 1, 2, 3, 4, 5, 6, 7, 8, 9 :: int] + nat 3 - 1) div nat 3 = Suc (Suc (Suc (Suc 0)))"
      by simp
    then show ?thesis by (simp only: upt_Suc_append upt_0 list.map append.simps) simp
  qed
  ultimately have "yields (StepByIter_next range_next) (StepByIter_new (rusty_range 0 10) 3)
      [0, 3, 6, 9] \<lparr>sb_iter = t', sb_stepSize = 3, sb_first = False, sb_invalid = False\<rparr>"
    by (simp only:)
  then have "collect (StepByIter_next range_next) (StepByIter_new (rusty_range 0 10) 3) =
      Some ([0, 3, 6, 9], \<lparr>sb_iter = t', sb_stepSize = 3, sb_first = False, sb_invalid = False\<rparr>)"
    by (simp only: collect_iff_yields)
  then show ?thesis by simp
qed

lemma yields_sticky_on_stays_exhausted:
  assumes st: "sticky_on I nxt"
  shows "I s \<Longrightarrow> yields nxt s xs t \<Longrightarrow> stays_exhausted nxt t"
proof (induction xs arbitrary: s)
  case Nil
  then have "nxt s = Some (None, t)" by (auto split: option.splits prod.splits)
  from sticky_on_stays_exhausted[OF st Nil.prems(1) this] show ?case .
next
  case (Cons x xs)
  from yields_ConsD[OF Cons.prems(2)] obtain s' where
    s': "nxt s = Some (Some x, s')" "yields nxt s' xs t" by blast
  from sticky_on_inv[OF st Cons.prems(1) s'(1)] have "I s'" .
  from Cons.IH[OF this s'(2)] show ?case .
qed

text \<open>
  Claim C6. For a step \<open>n \<ge> 1\<close>, \<^verbatim>\<open>step_by(n)\<close> returns the upstream items at positions
  \<open>0, n, 2n, \<dots>\<close>. It is stated per call, for every upstream whose calls return, ending
  or not, sticky or not: if \<open>rs\<close> lists the results of the first \<open>k * n + 1\<close> upstream calls,
  then the first \<open>k + 1\<close> calls of \<^verbatim>\<open>step_by(n)\<close> return \<open>rs ! 0, rs ! n, \<dots>, rs ! (k * n)\<close>,
  and they leave the upstream in the state after exactly \<open>k * n + 1\<close> calls (the first call
  takes one item, each later call takes \<open>n\<close> and returns the last of them). For an upstream
  that yields the items \<open>xs\<close> and then stays exhausted (as every upstream does that is sticky
  on the states it reaches), the whole sequence collected is \<open>xs ! 0, xs ! n, \<dots>\<close>, of
  length \<open>\<lceil>length xs / n\<rceil>\<close>. In particular \<^verbatim>\<open>range(0, 10).step_by(3)\<close> collects
  \<open>[0, 3, 6, 9]\<close>.
\<close>

theorem step_by_strides:
  "(1 \<le> n \<and> pulls nxt (Suc (k * nat n)) s = Some (rs, t) \<longrightarrow>
      pulls (StepByIter_next nxt) (Suc k) (StepByIter_new s n) =
        Some (map (\<lambda>i. rs ! (i * nat n)) [0..<Suc k],
              \<lparr>sb_iter = t, sb_stepSize = n, sb_first = False, sb_invalid = False\<rparr>))
   \<and> (1 \<le> n \<and> yields nxt s xs t \<and> stays_exhausted nxt t \<longrightarrow>
      (\<exists>t'. collect (StepByIter_next nxt) (StepByIter_new s n) =
        Some (map (\<lambda>i. xs ! (i * nat n)) [0..<(length xs + nat n - 1) div nat n],
              \<lparr>sb_iter = t', sb_stepSize = n, sb_first = False, sb_invalid = False\<rparr>)))
   \<and> (1 \<le> n \<and> sticky_on I nxt \<and> I s \<and> yields nxt s xs t \<longrightarrow>
      (\<exists>t'. collect (StepByIter_next nxt) (StepByIter_new s n) =
        Some (map (\<lambda>i. xs ! (i * nat n)) [0..<(length xs + nat n - 1) div nat n],
              \<lparr>sb_iter = t', sb_stepSize = n, sb_first = False, sb_invalid = False\<rparr>)))
   \<and> map_option fst (collect (StepByIter_next range_next) (StepByIter_new (rusty_range 0 10) 3)) =
       Some [0, 3, 6, 9]"
proof (intro conjI impI)
  assume "1 \<le> n \<and> pulls nxt (Suc (k * nat n)) s = Some (rs, t)"
  then show "pulls (StepByIter_next nxt) (Suc k) (StepByIter_new s n) =
        Some (map (\<lambda>i. rs ! (i * nat n)) [0..<Suc k],
              \<lparr>sb_iter = t, sb_stepSize = n, sb_first = False, sb_invalid = False\<rparr>)"
    using StepByIter_pulls[of n nxt k s rs t] by blast
next
  assume "1 \<le> n \<and> yields nxt s xs t \<and> stays_exhausted nxt t"
  then show "\<exists>t'. collect (StepByIter_next nxt) (StepByIter_new s n) =
        Some (map (\<lambda>i. xs ! (i * nat n)) [0..<(length xs + nat n - 1) div nat n],
              \<lparr>sb_iter = t', sb_stepSize = n, sb_first = False, sb_invalid = False\<rparr>)"
    unfolding collect_iff_yields using StepByIter_yields[of n nxt s xs t] by blast
next
  assume h: "1 \<le> n \<and> sticky_on I nxt \<and> I s \<and> yields nxt s xs t"
  then have "stays_exhausted nxt t"
    using yields_sticky_on_stays_exhausted[of I nxt s xs t] by blast
  with h show "\<exists>t'. collect (StepByIter_next nxt) (StepByIter_new s n) =
        Some (map (\<lambda>i. xs ! (i * nat n)) [0..<(length xs + nat n - 1) div nat n],
              \<lparr>sb_iter = t', sb_stepSize = n, sb_first = False, sb_invalid = False\<rparr>)"
    unfolding collect_iff_yields using StepByIter_yields[of n nxt s xs t] by blast
next
  show "map_option fst (collect (StepByIter_next range_next) (StepByIter_new (rusty_range 0 10) 3)) =
       Some [0, 3, 6, 9]"
    by (rule range_0_10_step_by_3)
qed

lemma infinite_range_0_pulls_7:
  "pulls infinite_range_next (Suc (2 * nat 3)) (infinite_range 0) =
     Some ([Some 0, Some 1, Some 2, Some 3, Some 4, Some 5, Some 6],
           \<lparr>irg_value = 7, irg_step = 1\<rparr>)"
proof -
  have "Suc (2 * nat 3) = Suc (Suc (Suc (Suc (Suc (Suc (Suc 0))))))" by simp
  then show ?thesis
    by (simp only: pulls.simps)
      (simp add: infinite_range_next_def infinite_range_def GeneratorIter_next_def
        InfiniteRangeGenerator_call_def)
qed

theorem step_by_strides_witness:
  "(1::int) \<le> 3
   \<and> pulls infinite_range_next (Suc (2 * nat 3)) (infinite_range 0) =
       Some ([Some 0, Some 1, Some 2, Some 3, Some 4, Some 5, Some 6],
             \<lparr>irg_value = 7, irg_step = 1\<rparr>)
   \<and> pulls (StepByIter_next infinite_range_next) (Suc 2) (StepByIter_new (infinite_range 0) 3) =
       Some ([Some 0, Some 3, Some 6],
             \<lparr>sb_iter = \<lparr>irg_value = 7, irg_step = 1\<rparr>, sb_stepSize = 3, sb_first = False,
              sb_invalid = False\<rparr>)
   \<and> (1::int) \<le> 2
   \<and> yields CppIteratorWrapper_next (iter [1, 2, 3, 4, 5 :: int]) [1, 2, 3, 4, 5] []
   \<and> stays_exhausted CppIteratorWrapper_next ([] :: int list)
   \<and> sticky_on (\<lambda>s. True) (CppIteratorWrapper_next :: (int list, int) advance)
   \<and> (\<exists>t'. collect (StepByIter_next CppIteratorWrapper_next)
            (StepByIter_new (iter [1, 2, 3, 4, 5 :: int]) 2) =
          Some ([1, 3, 5],
                \<lparr>sb_iter = t', sb_stepSize = 2, sb_first = False, sb_invalid = False\<rparr>))"
proof -
  have n3: "(1::int) \<le> 3" by simp
  have p: "pulls infinite_range_next (Suc (2 * nat 3)) (infinite_range 0) =
       Some ([Some 0, Some 1, Some 2, Some 3, Some 4, Some 5, Some 6],
             \<lparr>irg_value = 7, irg_step = 1\<rparr>)"
    by (rule infinite_range_0_pulls_7)
  have idx: "map (\<lambda>i. [Some 0, Some 1, Some 2, Some 3, Some 4, Some 5, Some (6::int)] ! (i * nat 3))
        [0..<Suc 2] = [Some 0, Some 3, Some 6]"
  proof -
    have "Suc 2 = Suc (Suc (Suc 0))" by simp
    then show ?thesis by (simp only: upt_Suc_append upt_0 list.map append.simps) simp
  qed
  from step_by_strides[THEN conjunct1, rule_format, of 3 infinite_range_next 2 "infinite_range 0"
      "[Some 0, Some 1, Some 2, Some 3, Some 4, Some 5, Some 6]" "\<lparr>irg_value = 7, irg_step = 1\<rparr>"]
    n3 p
  have 1: "pulls (StepByIter_next infinite_range_next) (Suc 2) (StepByIter_new (infinite_range 0) 3) =
       Some ([Some 0, Some 3, Some 6],
             \<lparr>sb_iter = \<lparr>irg_value = 7, irg_step = 1\<rparr>, sb_stepSize = 3, sb_first = False,
              sb_invalid = False\<rparr>)"
    unfolding idx by blast
  have n2: "(1::int) \<le> 2" by simp
  have y: "yields CppIteratorWrapper_next (iter [1, 2, 3, 4, 5 :: int]) [1, 2, 3, 4, 5] []"
    by (rule CppIteratorWrapper_yields)
  have st: "sticky_on (\<lambda>s. True) (CppIteratorWrapper_next :: (int list, int) advance)"
    by (rule sticky_CppIteratorWrapper)
  have e: "stays_exhausted CppIteratorWrapper_next ([] :: int list)"
    by (rule sticky_on_stays_exhausted[OF st, where s = "[]"])
      (simp_all add: CppIteratorWrapper_next_Nil)
  have idx2: "map (\<lambda>i. [1, 2, 3, 4, 5 :: int] ! (i * nat 2))
        [0..<(length [1, 2, 3, 4, 5 :: int] + nat 2 - 1) div nat 2] = [1, 3, 5]"
  proof -
    have "(length [1, 2, 3, 4, 5 :: int] + nat 2 - 1) div nat 2 = Suc (Suc (Suc 0))" by simp
    then show ?thesis by (simp only: upt_Suc_append upt_0 list.map append.simps) simp
  qed
  from step_by_strides[THEN conjunct2, THEN conjunct1, rule_format, of 2 CppIteratorWrapper_next
      "iter [1, 2, 3, 4, 5 :: int]" "[1, 2, 3, 4, 5]" "[]"] n2 y e
  have 2: "\<exists>t'. collect (StepByIter_next CppIteratorWrapper_next)
            (StepByIter_new (iter [1, 2, 3, 4, 5 :: int]) 2) =
          Some ([1, 3, 5],
                \<lparr>sb_iter = t', sb_stepSize = 2, sb_first = False, sb_invalid = False\<rparr>)"
    unfolding idx2 by blast
  from step_by_strides[THEN conjunct2, THEN conjunct2, THEN conjunct1, rule_format,
      of 2 "\<lambda>s. True" CppIteratorWrapper_next
      "iter [1, 2, 3, 4, 5 :: int]" "[1, 2, 3, 4, 5]" "[]"] n2 st y
  have 3: "\<exists>t'. collect (StepByIter_next CppIteratorWrapper_next)
            (StepByIter_new (iter [1, 2, 3, 4, 5 :: int]) 2) =
          Some ([1, 3, 5],
                \<lparr>sb_iter = t', sb_stepSize = 2, sb_first = False, sb_invalid = False\<rparr>)"
    unfolding idx2 by blast
  from n3 p 1 n2 y e st 3 show ?thesis by (intro conjI)
qed

subsection \<open>Lexicographic comparison\<close>

text \<open>For the comparison of the elements themselves (\<^verbatim>\<open>compare<int>\<close> through an
  \<^verbatim>\<open>int\<close> item type) the scenario of the comparison of \<open>[0, 1]\<close> with \<open>[0, \<dots>, 9]\<close>
  gives \<open>-1\<close>: the shorter sequence ends first, after two equal pairs.\<close>

lemma cmp_short_against_long:
  "cmp CppIteratorWrapper_next range_next (<) (>) (\<lambda>c. c) (iter [0, 1]) (rusty_range 0 10) =
     Some (- 1, [],
       \<lparr>fg_generatorFunction = \<lparr>frg_value = 3, frg_end = 10, frg_step = 1\<rparr>, fg_done = False\<rparr>)"
proof -
  let ?pcf = "\<lambda>a b. Some (compare (<) (>) a (b::int))"
  have r: "range_next \<lparr>fg_generatorFunction = \<lparr>frg_value = v, frg_end = 10, frg_step = 1\<rparr>, fg_done = False\<rparr>
      = (if v < 10 then Some (Some v, \<lparr>fg_generatorFunction = \<lparr>frg_value = v + 1, frg_end = 10, frg_step = 1\<rparr>, fg_done = False\<rparr>)
         else Some (None, \<lparr>fg_generatorFunction = \<lparr>frg_value = v, frg_end = 10, frg_step = 1\<rparr>, fg_done = True\<rparr>))" for v
    by (simp add: range_next_def FiniteGeneratorIter_next_def FiniteRangeGenerator_call_def)
  have 1: "partial_cmp_by CppIteratorWrapper_next range_next ?pcf (iter [0, 1]) (rusty_range 0 10) =
      partial_cmp_by CppIteratorWrapper_next range_next ?pcf [1]
        \<lparr>fg_generatorFunction = \<lparr>frg_value = 1, frg_end = 10, frg_step = 1\<rparr>, fg_done = False\<rparr>"
    by (rule partial_cmp_by_equal[where x = 0 and y = 0 and v = 0])
      (simp_all add: iter_def CppIteratorWrapper_next_Cons rusty_range_def FiniteGeneratorIter_new_def
        r compare_def to_char_def)
  have 2: "partial_cmp_by CppIteratorWrapper_next range_next ?pcf [1]
        \<lparr>fg_generatorFunction = \<lparr>frg_value = 1, frg_end = 10, frg_step = 1\<rparr>, fg_done = False\<rparr> =
      partial_cmp_by CppIteratorWrapper_next range_next ?pcf []
        \<lparr>fg_generatorFunction = \<lparr>frg_value = 2, frg_end = 10, frg_step = 1\<rparr>, fg_done = False\<rparr>"
    by (rule partial_cmp_by_equal[where x = 1 and y = 1 and v = 0])
      (simp_all add: CppIteratorWrapper_next_Cons r compare_def to_char_def)
  have 3: "partial_cmp_by CppIteratorWrapper_next range_next ?pcf []
        \<lparr>fg_generatorFunction = \<lparr>frg_value = 2, frg_end = 10, frg_step = 1\<rparr>, fg_done = False\<rparr> =
      Some (Some (- 1), [],
        \<lparr>fg_generatorFunction = \<lparr>frg_value = 3, frg_end = 10, frg_step = 1\<rparr>, fg_done = False\<rparr>)"
    by (rule partial_cmp_by_this_done[where y = 2])
      (simp_all add: CppIteratorWrapper_next_Nil r)
  show ?thesis unfolding cmp_def cmp_by_def by (simp add: 1 2 3)
qed

text \<open>An incomparable pair decides the result of \<^verbatim>\<open>partial_cmp\<close>: with items for which
  neither \<^verbatim>\<open>==\<close> nor \<^verbatim>\<open><\<close> nor \<^verbatim>\<open>>\<close> holds (a NaN, here \<open>None\<close>, compared with anything,
  itself included) the result is empty.\<close>

lemma partial_cmp_incomparable_pair:
  "partial_cmp CppIteratorWrapper_next CppIteratorWrapper_next
     (\<lambda>a b. case (a, b) of (Some x, Some y) \<Rightarrow> x = y | _ \<Rightarrow> False)
     (\<lambda>a b. case (a, b) of (Some x, Some y) \<Rightarrow> x < y | _ \<Rightarrow> False)
     (\<lambda>a b. case (a, b) of (Some x, Some y) \<Rightarrow> x > y | _ \<Rightarrow> False)
     (iter [Some (1::int), None, Some 5]) (iter [Some 1, None, Some 4]) =
   Some (None, [Some 5], [Some 4])"
proof -
  let ?N = "CppIteratorWrapper_next :: (int option list, int option) advance"
  let ?pcf = "compare_partial
     (\<lambda>a b. case (a, b) of (Some x, Some y) \<Rightarrow> x = (y::int) | _ \<Rightarrow> False)
     (\<lambda>a b. case (a, b) of (Some x, Some y) \<Rightarrow> x < (y::int) | _ \<Rightarrow> False)
     (\<lambda>a b. case (a, b) of (Some x, Some y) \<Rightarrow> x > (y::int) | _ \<Rightarrow> False)"
  have 1: "partial_cmp_by ?N ?N ?pcf (iter [Some 1, None, Some 5]) (iter [Some 1, None, Some 4]) =
      partial_cmp_by ?N ?N ?pcf [None, Some 5] [None, Some 4]"
    by (rule partial_cmp_by_equal[where x = "Some 1" and y = "Some 1" and v = 0])
      (simp_all add: iter_def CppIteratorWrapper_next_Cons to_char_def compare_partial_def)
  have 2: "partial_cmp_by ?N ?N ?pcf [None, Some 5] [None, Some 4] = Some (None, [Some 5], [Some 4])"
    by (rule partial_cmp_by_incomparable[where x = None and y = None])
      (simp_all add: CppIteratorWrapper_next_Cons compare_partial_def)
  show ?thesis by (simp only: partial_cmp_def 1 2)
qed

text \<open>
  Claim C4. The comparison operations walk both sequences in lockstep, and the first pair
  whose elements are not equal is to decide the result, which is \<open>-1\<close>, \<open>0\<close> or \<open>1\<close>. The code
  does not do that for every comparison function its documentation admits ("You can return
  any type that can be compared this way", and the tests pass \<^verbatim>\<open>a - b\<close> on \<^verbatim>\<open>int\<close>):
  \<^verbatim>\<open>partial_cmp_by\<close> stores the result of the comparison function in a
  \<^verbatim>\<open>std::optional<char>\<close> before it looks at it. With \<^verbatim>\<open>a - b\<close> on \<^verbatim>\<open>int\<close>, comparing
  \<open>[256, 1]\<close> with \<open>[0, 2]\<close> gives \<open>-1\<close> ("less"): the first pair differs, \<open>256 > 0\<close>, but
  \<open>256\<close> becomes the \<^verbatim>\<open>char\<close> \<open>0\<close>, the pair counts as equal and the second pair decides.
  Comparing \<open>[0, 200]\<close> with \<open>[0, 0]\<close> gives \<open>-56\<close>: not one of \<open>-1, 0, 1\<close>, and negative
  although the first sequence is the greater. \<^verbatim>\<open>cmp_by\<close> moreover passes the result
  through \<^verbatim>\<open>std::optional<OutType>\<close>, \<^verbatim>\<open>OutType\<close> being the type of the items, so
  \<^verbatim>\<open>cmp\<close> on sequences of \<^verbatim>\<open>bool\<close> turns the \<open>-1\<close> of \<^verbatim>\<open>compare\<close> into \<^verbatim>\<open>true\<close> and
  then into \<open>1\<close>: comparing \<open>[false]\<close> with \<open>[true]\<close> gives \<open>1\<close> ("greater").
\<close>

theorem cmp_by_narrows_comparison_result:
  "cmp_by CppIteratorWrapper_next CppIteratorWrapper_next (\<lambda>a b. a - b) (\<lambda>c. c)
      (iter [256, 1]) (iter [0, 2]) = Some (- 1, [], [])
   \<and> cmp_by CppIteratorWrapper_next CppIteratorWrapper_next (\<lambda>a b. a - b) (\<lambda>c. c)
      (iter [0, 200]) (iter [0, 0]) = Some (- 56, [], [])
   \<and> cmp CppIteratorWrapper_next CppIteratorWrapper_next (<) (>) (\<lambda>c. if c = 0 then 0 else 1)
      (iter [False]) (iter [True]) = Some (1, [], [])"
proof (intro conjI)
  let ?N = "CppIteratorWrapper_next :: (int list, int) advance"
  let ?pcf = "\<lambda>a b :: int. Some (a - b)"
  have 1: "partial_cmp_by ?N ?N ?pcf (iter [256, 1]) (iter [0, 2]) = partial_cmp_by ?N ?N ?pcf [1] [2]"
    by (rule partial_cmp_by_equal[where x = 256 and y = 0 and v = 256])
      (simp_all add: iter_def CppIteratorWrapper_next_Cons to_char_def)
  have 2: "partial_cmp_by ?N ?N ?pcf [1] [2] = Some (Some (to_char (- 1)), [], [])"
    by (rule partial_cmp_by_differ[where x = 1 and y = 2])
      (simp_all add: CppIteratorWrapper_next_Cons to_char_def)
  show "cmp_by ?N ?N (\<lambda>a b. a - b) (\<lambda>c. c) (iter [256, 1]) (iter [0, 2]) = Some (- 1, [], [])"
    unfolding cmp_by_def by (simp add: 1 2 to_char_def)
  have 3: "partial_cmp_by ?N ?N ?pcf (iter [0, 200]) (iter [0, 0]) = partial_cmp_by ?N ?N ?pcf [200] [0]"
    by (rule partial_cmp_by_equal[where x = 0 and y = 0 and v = 0])
      (simp_all add: iter_def CppIteratorWrapper_next_Cons to_char_def)
  have 4: "partial_cmp_by ?N ?N ?pcf [200] [0] = Some (Some (to_char 200), [], [])"
    by (rule partial_cmp_by_differ[where x = 200 and y = 0])
      (simp_all add: CppIteratorWrapper_next_Cons to_char_def)
  show "cmp_by ?N ?N (\<lambda>a b. a - b) (\<lambda>c. c) (iter [0, 200]) (iter [0, 0]) = Some (- 56, [], [])"
    unfolding cmp_by_def by (simp add: 3 4 to_char_def)
  let ?B = "CppIteratorWrapper_next :: (bool list, bool) advance"
  let ?pcb = "\<lambda>a b :: bool. Some (if compare (<) (>) a b = 0 then 0 else 1 :: int)"
  have 5: "partial_cmp_by ?B ?B ?pcb (iter [False]) (iter [True]) = Some (Some (to_char 1), [], [])"
    by (rule partial_cmp_by_differ[where x = False and y = True])
      (simp_all add: iter_def CppIteratorWrapper_next_Cons to_char_def compare_def)
  show "cmp ?B ?B (<) (>) (\<lambda>c. if c = 0 then 0 else 1) (iter [False]) (iter [True]) = Some (1, [], [])"
    by (simp only: cmp_def cmp_by_def 5) (simp add: to_char_def)
qed

subsection \<open>Construction and lookahead\<close>

































end
